theory Spec2Isabelle
  imports Complex_Main "HOL-Library.Sublist"
begin

section \<open>JavaScript numbers and \<open>formatTime\<close> (client/src/lib/audio.ts)\<close>

text \<open>
  A JavaScript number is modelled as a real number extended with \<open>NaN\<close> and the two
  infinities; the rounding of doubles is not modelled.  \<open>jsval\<close> adds the two non-number
  values that the guard of \<open>formatTime\<close> tests for.
\<close>

datatype jsnum = NaN | NegInf | Fin real | PosInf

datatype jsval = Undefined | Null | Num jsnum

definition js_isNaN :: "jsnum \<Rightarrow> bool" where
  "js_isNaN n = (n = NaN)"

definition js_isFinite :: "jsnum \<Rightarrow> bool" where
  "js_isFinite n = (case n of Fin x \<Rightarrow> True | _ \<Rightarrow> False)"

text \<open>\<open>a <= b\<close>: false as soon as one side is \<open>NaN\<close>.\<close>

fun js_le :: "jsnum \<Rightarrow> jsnum \<Rightarrow> bool" where
  "js_le NaN b = False"
| "js_le a NaN = False"
| "js_le NegInf b = True"
| "js_le a PosInf = True"
| "js_le (Fin x) (Fin y) = (x \<le> y)"
| "js_le a b = False"

text \<open>\<open>Math.max\<close> and \<open>Math.min\<close> return \<open>NaN\<close> when an argument is \<open>NaN\<close>.\<close>

definition js_max :: "jsnum \<Rightarrow> jsnum \<Rightarrow> jsnum" where
  "js_max a b = (if a = NaN \<or> b = NaN then NaN else if js_le a b then b else a)"





text \<open>\<open>d || 0\<close>: the falsy numbers are \<open>NaN\<close> and zero.\<close>

definition js_or0 :: "jsnum \<Rightarrow> jsnum" where
  "js_or0 d = (if d = NaN \<or> d = Fin 0 then Fin 0 else d)"

text \<open>\<open>x % y\<close> on finite numbers: the remainder of the division truncated towards zero.\<close>

definition js_trunc :: "real \<Rightarrow> int" where
  "js_trunc z = (if 0 \<le> z then \<lfloor>z\<rfloor> else \<lceil>z\<rceil>)"

definition js_rem :: "real \<Rightarrow> real \<Rightarrow> real" where
  "js_rem x y = x - y * of_int (js_trunc (x / y))"

definition digit_char :: "nat \<Rightarrow> char" where
  "digit_char d = ''0123456789'' ! d"

fun digits :: "nat \<Rightarrow> string" where
  "digits n = (if n < 10 then [digit_char n] else digits (n div 10) @ [digit_char (n mod 10)])"

declare digits.simps [simp del]

text \<open>
  \<open>Number.prototype.toString\<close> on an integer-valued number.  Below \<open>10^21\<close> the result is
  the decimal numeral; from \<open>10^21\<close> on JavaScript switches to exponent notation, which is
  left to the parameter \<open>expo\<close>.
\<close>

definition toString :: "(int \<Rightarrow> string) \<Rightarrow> int \<Rightarrow> string" where
  "toString expo i =
     (if 10 ^ 21 \<le> \<bar>i\<bar> then expo i
      else if i < 0 then CHR ''-'' # digits (nat (- i))
      else digits (nat i))"

text \<open>A rendering for the numbers that are never that large.\<close>

definition no_expo :: "int \<Rightarrow> string" where
  "no_expo i = []"

definition padStart :: "nat \<Rightarrow> char \<Rightarrow> string \<Rightarrow> string" where
  "padStart n c s = replicate (n - length s) c @ s"

definition formatTime :: "(int \<Rightarrow> string) \<Rightarrow> jsval \<Rightarrow> string" where
  "formatTime expo v =
     (case v of
        Undefined \<Rightarrow> ''0:00''
      | Null \<Rightarrow> ''0:00''
      | Num n \<Rightarrow>
          if js_isNaN n \<or> \<not> js_isFinite n then ''0:00''
          else (case js_max (Fin 0) n of
                  Fin seconds \<Rightarrow>
                    (let hours = \<lfloor>seconds / 3600\<rfloor>;
                         mins = \<lfloor>js_rem seconds 3600 / 60\<rfloor>;
                         secs = \<lfloor>js_rem seconds 60\<rfloor>
                     in if hours > 0
                        then toString expo hours @ '':''
                               @ padStart 2 (CHR ''0'') (toString expo mins) @ '':''
                               @ padStart 2 (CHR ''0'') (toString expo secs)
                        else toString expo mins @ '':''
                               @ padStart 2 (CHR ''0'') (toString expo secs))
                | _ \<Rightarrow> ''0:00''))"

text \<open>
  The rendering the description of \<open>formatTime\<close> asks for, on whole seconds: a field of
  exactly two decimal digits.
\<close>

definition two_digits :: "nat \<Rightarrow> string" where
  "two_digits n = [digit_char (n div 10), digit_char (n mod 10)]"

section \<open>Session store (client/src/store: \<open>useSessionStore\<close>)\<close>

text \<open>
  The zustand store is a record; every action is a function from the store state to the
  next store state (\<open>set\<close> merges the returned fields into the state).  The binary
  payload of a \<open>Blob\<close> is a list of bytes.  \<open>Conversation\<close> and \<open>Student\<close> come from
  the shared schema and are opaque here.
\<close>

type_synonym Blob = "nat list"

typedecl Conversation
typedecl Student

datatype JobStatus = Pending | Processing | Completed | Failed

record TranscriptionQueueItem =
  conversationId :: int
  audioPath :: string
  status :: JobStatus
  error :: "string option"

text \<open>\<open>Omit<TranscriptionQueueItem, 'status'>\<close>, the argument of \<open>addToTranscriptionQueue\<close>.\<close>

record QueueItemInput =
  in_conversationId :: int
  in_audioPath :: string
  in_error :: "string option"

text \<open>
  \<open>Partial<TranscriptionQueueItem>\<close>: a field is either absent (\<open>None\<close>) or present.
  The optional field \<open>error\<close> can be present with the value \<open>undefined\<close>, hence the
  nested option.
\<close>

record QueueItemUpdate =
  upd_conversationId :: "int option"
  upd_audioPath :: "string option"
  upd_status :: "JobStatus option"
  upd_error :: "string option option"

datatype Tab = transcript | analysis

record SessionData =
  studentName :: string
  class_name :: string
  conversationTypeId :: "int option"
  date :: string

text \<open>
  \<open>RecordingState\<close> and \<open>PlayerState\<close> of lib/audio.ts.  The recorder only ever
  reports finite durations and levels; the player reports what the audio element holds.
  Record fields share one name space, so the \<open>duration\<close> of \<open>RecordingState\<close> is
  \<open>rec_duration\<close> here, and the field \<open>class\<close> of the session data is \<open>class_name\<close>.
\<close>

record RecordingState =
  isRecording :: bool
  isPaused :: bool
  rec_duration :: real
  audioBlob :: "Blob option"
  audioLevel :: "real option"

record PlayerState =
  isPlaying :: bool
  currentTime :: jsnum
  duration :: jsnum

record SessionState =
  activeTab :: Tab
  currentSessionData :: SessionData
  recordingState :: RecordingState
  playbackState :: PlayerState
  isTranscribing :: bool
  transcriptSearchQuery :: string
  studentSuggestions :: "Student list"
  currentConversation :: "Conversation option"
  transcriptionQueue :: "TranscriptionQueueItem list"

text \<open>
  \<open>initialSessionData.date\<close> is the day on which the module was loaded
  (\<open>new Date().toISOString().split('T')[0]\<close>); it is a parameter \<open>today\<close>.
\<close>

definition initialSessionData :: "string \<Rightarrow> SessionData" where
  "initialSessionData today =
     \<lparr>studentName = '''', class_name = '''', conversationTypeId = None, date = today\<rparr>"

definition initialRecordingState :: RecordingState where
  "initialRecordingState =
     \<lparr>isRecording = False, isPaused = False, rec_duration = 0, audioBlob = None,
      audioLevel = None\<rparr>"

definition initialPlaybackState :: PlayerState where
  "initialPlaybackState = \<lparr>isPlaying = False, currentTime = Fin 0, duration = Fin 0\<rparr>"

definition initialSessionState :: "string \<Rightarrow> SessionState" where
  "initialSessionState today =
     \<lparr>activeTab = transcript,
      currentSessionData = initialSessionData today,
      recordingState = initialRecordingState,
      playbackState = initialPlaybackState,
      isTranscribing = False,
      transcriptSearchQuery = '''',
      studentSuggestions = [],
      currentConversation = None,
      transcriptionQueue = []\<rparr>"

definition setRecordingState :: "RecordingState \<Rightarrow> SessionState \<Rightarrow> SessionState" where
  "setRecordingState r s = s\<lparr>recordingState := r\<rparr>"

definition setPlaybackState :: "PlayerState \<Rightarrow> SessionState \<Rightarrow> SessionState" where
  "setPlaybackState p s = s\<lparr>playbackState := p\<rparr>"

text \<open>\<open>{ ...item, status: 'pending' }\<close>\<close>

definition pendingItem :: "QueueItemInput \<Rightarrow> TranscriptionQueueItem" where
  "pendingItem item =
     \<lparr>conversationId = in_conversationId item, audioPath = in_audioPath item,
      status = Pending, error = in_error item\<rparr>"

definition addToTranscriptionQueue :: "QueueItemInput \<Rightarrow> SessionState \<Rightarrow> SessionState" where
  "addToTranscriptionQueue item s =
     s\<lparr>transcriptionQueue := transcriptionQueue s @ [pendingItem item]\<rparr>"

text \<open>\<open>{ ...item, ...update }\<close>: every field present in \<open>update\<close> replaces the item's.\<close>

definition mergeItem :: "TranscriptionQueueItem \<Rightarrow> QueueItemUpdate \<Rightarrow> TranscriptionQueueItem" where
  "mergeItem item update =
     \<lparr>conversationId = (case upd_conversationId update of None \<Rightarrow> conversationId item | Some c \<Rightarrow> c),
      audioPath = (case upd_audioPath update of None \<Rightarrow> audioPath item | Some p \<Rightarrow> p),
      status = (case upd_status update of None \<Rightarrow> status item | Some st \<Rightarrow> st),
      error = (case upd_error update of None \<Rightarrow> error item | Some e \<Rightarrow> e)\<rparr>"

definition updateTranscriptionQueueItem ::
  "int \<Rightarrow> QueueItemUpdate \<Rightarrow> SessionState \<Rightarrow> SessionState" where
  "updateTranscriptionQueueItem cid update s =
     s\<lparr>transcriptionQueue :=
         map (\<lambda>item. if conversationId item = cid then mergeItem item update else item)
           (transcriptionQueue s)\<rparr>"

definition removeFromTranscriptionQueue :: "int \<Rightarrow> SessionState \<Rightarrow> SessionState" where
  "removeFromTranscriptionQueue cid s =
     s\<lparr>transcriptionQueue := filter (\<lambda>item. conversationId item \<noteq> cid) (transcriptionQueue s)\<rparr>"

definition resetSession :: "string \<Rightarrow> SessionState \<Rightarrow> SessionState" where
  "resetSession today s =
     s\<lparr>currentSessionData := initialSessionData today,
       recordingState := initialRecordingState,
       playbackState := initialPlaybackState,
       isTranscribing := False,
       transcriptSearchQuery := '''',
       currentConversation := None\<rparr>"

text \<open>The conversation ids of the jobs in the queue, in queue order.\<close>

definition queueIds :: "SessionState \<Rightarrow> int list" where
  "queueIds s = map conversationId (transcriptionQueue s)"

text \<open>An update that only sets the status, as the recorder component issues it.\<close>

definition statusUpdate :: "JobStatus \<Rightarrow> string option \<Rightarrow> QueueItemUpdate" where
  "statusUpdate st err =
     \<lparr>upd_conversationId = None, upd_audioPath = None, upd_status = Some st,
      upd_error = (case err of None \<Rightarrow> None | Some e \<Rightarrow> Some (Some e))\<rparr>"

definition job7 :: QueueItemInput where
  "job7 = \<lparr>in_conversationId = 7, in_audioPath = ''a.wav'', in_error = None\<rparr>"

definition job9 :: QueueItemInput where
  "job9 = \<lparr>in_conversationId = 9, in_audioPath = ''b.wav'', in_error = None\<rparr>"

definition twoJobs :: SessionState where
  "twoJobs = addToTranscriptionQueue job9
     (addToTranscriptionQueue job7 (initialSessionState ''2024-01-01''))"

section \<open>Playback engine (\<open>AudioPlayerService\<close>, client/src/lib/audio.ts)\<close>

text \<open>
  The \<open>HTMLAudioElement\<close> is a record of the properties the service reads and writes.  A
  fresh element is paused at time 0 and has no duration yet (\<open>NaN\<close>); the browser sets
  the duration when the metadata arrives.  An assignment to \<open>currentTime\<close> is modelled
  as a plain store of the assigned value.
\<close>

record AudioElement =
  paused :: bool
  el_currentTime :: jsnum
  el_duration :: jsnum
  src :: string

text \<open>The interval timers of \<open>window\<close>: the active handles and the next fresh handle.\<close>

record Timers =
  active :: "nat list"
  next_id :: nat

definition setInterval :: "Timers \<Rightarrow> nat \<times> Timers" where
  "setInterval w = (next_id w, \<lparr>active = next_id w # active w, next_id = Suc (next_id w)\<rparr>)"

definition clearInterval :: "nat \<Rightarrow> Timers \<Rightarrow> Timers" where
  "clearInterval i w = w\<lparr>active := removeAll i (active w)\<rparr>"

text \<open>
  The service.  \<open>p_updateCallback\<close> says whether a callback is registered; calling it is
  recorded by appending the reported state to \<open>p_emitted\<close>.  The prefix \<open>p_\<close> keeps the
  private members \<open>updateCallback\<close>, \<open>intervalId\<close>, \<open>updateState\<close> and \<open>reset\<close> apart from
  those of the recorder, which has members of the same names.
\<close>

record AudioPlayerService =
  audio :: "AudioElement option"
  p_updateCallback :: bool
  p_intervalId :: "nat option"
  p_timers :: Timers
  p_emitted :: "PlayerState list"


definition p_updateState :: "AudioPlayerService \<Rightarrow> AudioPlayerService" where
  "p_updateState p =
     (if \<not> p_updateCallback p then p
      else case audio p of
        None \<Rightarrow> p
      | Some a \<Rightarrow>
          p\<lparr>p_emitted := p_emitted p @
              [\<lparr>isPlaying = \<not> paused a, currentTime = el_currentTime a,
                duration = js_or0 (el_duration a)\<rparr>]\<rparr>)"











section \<open>Capture engine (\<open>AudioRecorderService\<close>, client/src/lib/audio.ts)\<close>

text \<open>
  The nodes of the Web Audio graph that \<open>start\<close> creates, and the parameters it sets on
  them.  \<open>Destination\<close> is the \<open>MediaStreamDestination\<close> whose stream the \<open>MediaRecorder\<close>
  encodes; it is a local variable of \<open>start\<close>, not a field of the service.
\<close>

datatype AudioNode = Source | Highpass | Lowpass | Compressor | Analyser | Processor | Destination

datatype BiquadType = highpass | lowpass

record BiquadFilterNode =
  filter_type :: BiquadType
  frequency :: real

record DynamicsCompressorNode =
  threshold :: real
  knee :: real
  ratio :: real
  attack :: real
  release :: real

record AnalyserNode =
  fftSize :: nat

definition frequencyBinCount :: "AnalyserNode \<Rightarrow> nat" where
  "frequencyBinCount a = fftSize a div 2"

datatype RecorderState = rs_inactive | rs_recording | rs_paused

datatype ContextState = ctx_running | ctx_suspended | ctx_closed

text \<open>
  The service and the part of the browser it acts on.  A node field holds the node's
  parameters when it is set and \<open>None\<close> when it is \<open>null\<close>; \<open>sourceNode\<close>, \<open>processorNode\<close>
  and \<open>stream\<close> carry no data of interest and only say whether the field is set.
  \<open>graph\<close> lists the connections of the current audio context in the order they were
  made, \<open>mic_tracks\<close> the tracks of the acquired input stream (\<open>True\<close> while a track is
  live), \<open>timers\<close> the interval timers of the window.  Calls of the update callback are
  recorded in \<open>emitted\<close>.  Times are milliseconds as returned by \<open>Date.now()\<close>.  The
  private member \<open>audioLevel\<close> is \<open>level\<close> here (\<open>RecordingState\<close> has a field of that
  name).
\<close>

record AudioRecorderService =
  audioContext :: "ContextState option"
  sourceNode :: bool
  analyserNode :: "AnalyserNode option"
  processorNode :: bool
  highpassFilter :: "BiquadFilterNode option"
  lowpassFilter :: "BiquadFilterNode option"
  compressorNode :: "DynamicsCompressorNode option"
  mediaRecorder :: "RecorderState option"
  audioChunks :: "Blob list"
  stream :: bool
  startTime :: real
  pausedTime :: real
  updateCallback :: bool
  intervalId :: "nat option"
  level :: real
  dataArray :: "nat list option"
  graph :: "(AudioNode \<times> AudioNode) list"
  mic_tracks :: "bool list"
  timers :: Timers
  emitted :: "RecordingState list"

text \<open>\<open>node.disconnect()\<close> removes every connection that leaves the node.\<close>

definition disconnect :: "AudioNode \<Rightarrow> AudioRecorderService \<Rightarrow> AudioRecorderService" where
  "disconnect n r = r\<lparr>graph := filter (\<lambda>(a, b). a \<noteq> n) (graph r)\<rparr>"

definition connect :: "AudioNode \<Rightarrow> AudioNode \<Rightarrow> AudioRecorderService \<Rightarrow> AudioRecorderService" where
  "connect a b r = r\<lparr>graph := graph r @ [(a, b)]\<rparr>"

text \<open>\<open>disposeAudioNodes\<close> is a sequence of six guarded blocks, one per node field.\<close>

definition disposeSource :: "AudioRecorderService \<Rightarrow> AudioRecorderService" where
  "disposeSource r = (if sourceNode r then (disconnect Source r)\<lparr>sourceNode := False\<rparr> else r)"

definition disposeAnalyser :: "AudioRecorderService \<Rightarrow> AudioRecorderService" where
  "disposeAnalyser r =
     (if analyserNode r \<noteq> None then (disconnect Analyser r)\<lparr>analyserNode := None\<rparr> else r)"

definition disposeProcessor :: "AudioRecorderService \<Rightarrow> AudioRecorderService" where
  "disposeProcessor r =
     (if processorNode r then (disconnect Processor r)\<lparr>processorNode := False\<rparr> else r)"

definition disposeHighpass :: "AudioRecorderService \<Rightarrow> AudioRecorderService" where
  "disposeHighpass r =
     (if highpassFilter r \<noteq> None then (disconnect Highpass r)\<lparr>highpassFilter := None\<rparr> else r)"

definition disposeLowpass :: "AudioRecorderService \<Rightarrow> AudioRecorderService" where
  "disposeLowpass r =
     (if lowpassFilter r \<noteq> None then (disconnect Lowpass r)\<lparr>lowpassFilter := None\<rparr> else r)"

definition disposeCompressor :: "AudioRecorderService \<Rightarrow> AudioRecorderService" where
  "disposeCompressor r =
     (if compressorNode r \<noteq> None then (disconnect Compressor r)\<lparr>compressorNode := None\<rparr> else r)"

definition disposeAudioNodes :: "AudioRecorderService \<Rightarrow> AudioRecorderService" where
  "disposeAudioNodes r =
     disposeCompressor (disposeLowpass (disposeHighpass (disposeProcessor
       (disposeAnalyser (disposeSource r)))))"

definition stopTracks :: "AudioRecorderService \<Rightarrow> AudioRecorderService" where
  "stopTracks r = r\<lparr>mic_tracks := map (\<lambda>live. False) (mic_tracks r)\<rparr>"

definition reset :: "AudioRecorderService \<Rightarrow> AudioRecorderService" where
  "reset r =
     (let r1 = (if stream r then (stopTracks r)\<lparr>stream := False\<rparr> else r);
          r2 = disposeAudioNodes r1;
          r3 = r2\<lparr>mediaRecorder := None, audioChunks := [], startTime := 0, pausedTime := 0,
                  level := 0, dataArray := None\<rparr>
      in case intervalId r3 of
           None \<Rightarrow> r3
         | Some i \<Rightarrow> r3\<lparr>timers := clearInterval i (timers r3), intervalId := None\<rparr>)"

text \<open>
  \<open>getByteFrequencyData\<close> fills the array with the analyser's current bins, each a byte;
  \<open>bins\<close> is what the analyser holds at that moment.
\<close>

definition getByteFrequencyData :: "nat list \<Rightarrow> nat list \<Rightarrow> nat list" where
  "getByteFrequencyData bins arr = take (length arr) (map (\<lambda>b. min b 255) bins @ replicate (length arr) 0)"

definition updateAudioLevel :: "nat list \<Rightarrow> AudioRecorderService \<Rightarrow> AudioRecorderService" where
  "updateAudioLevel bins r =
     (case analyserNode r of
        None \<Rightarrow> r
      | Some an \<Rightarrow>
          (case dataArray r of
             None \<Rightarrow> r
           | Some arr \<Rightarrow>
               (let arr' = getByteFrequencyData bins arr
                in r\<lparr>dataArray := Some arr',
                     level := real (sum_list arr') / (real (length arr') * 255)\<rparr>)))"

text \<open>\<open>new Blob(chunks)\<close> is the concatenation of the chunks.\<close>

definition updateState :: "real \<Rightarrow> nat list \<Rightarrow> AudioRecorderService \<Rightarrow> AudioRecorderService" where
  "updateState now bins r =
     (if \<not> updateCallback r then r
      else
        (let r1 = updateAudioLevel bins r;
             isRec = (mediaRecorder r1 \<noteq> None \<and> mediaRecorder r1 \<noteq> Some rs_inactive);
             isPau = (mediaRecorder r1 = Some rs_paused);
             dur = (if startTime r1 > 0
                    then (if isPau then pausedTime r1 else (now - startTime r1) / 1000)
                    else 0);
             blob = (if length (audioChunks r1) > 0 then Some (concat (audioChunks r1)) else None)
         in r1\<lparr>emitted := emitted r1 @
              [\<lparr>isRecording = isRec, isPaused = isPau, rec_duration = dur, audioBlob = blob,
                audioLevel = Some (level r1)\<rparr>]\<rparr>))"

text \<open>
  What the browser answers during \<open>start\<close>: \<open>getUserMedia\<close> rejects with a message or
  resolves with a stream of some number of tracks; \<open>newMediaRecorder\<close> is \<open>None\<close> when a
  \<open>MediaRecorder\<close> can be constructed (with the opus options or with the fallback) and
  the message of the exception when both constructors throw.
\<close>

record StartEnv =
  getUserMedia :: "string + nat"
  newMediaRecorder :: "string option"

definition buildGraph :: "AudioRecorderService \<Rightarrow> AudioRecorderService" where
  "buildGraph r =
     (let r1 = r\<lparr>audioContext := Some ctx_running, graph := [], sourceNode := True\<rparr>;
          r2 = r1\<lparr>highpassFilter := Some \<lparr>filter_type = highpass, frequency = 85\<rparr>\<rparr>;
          r3 = r2\<lparr>lowpassFilter := Some \<lparr>filter_type = lowpass, frequency = 10000\<rparr>\<rparr>;
          r4 = r3\<lparr>compressorNode := Some \<lparr>threshold = - 24, knee = 30, ratio = 12,
                  attack = 0.003, release = 0.25\<rparr>\<rparr>;
          r5 = r4\<lparr>analyserNode := Some \<lparr>fftSize = 256\<rparr>\<rparr>;
          r6 = r5\<lparr>dataArray := Some (replicate (frequencyBinCount \<lparr>fftSize = 256\<rparr>) 0)\<rparr>;
          r7 = connect Source Highpass r6;
          r8 = connect Highpass Lowpass r7;
          r9 = connect Lowpass Compressor r8;
          r10 = connect Compressor Analyser r9;
          r11 = r10\<lparr>processorNode := True\<rparr>;
          r12 = connect Compressor Destination r11
      in r12)"

text \<open>
  \<open>start\<close> returns the message of the error it throws, if any, and the state it leaves.
  A new \<open>AudioContext\<close> is created on every start, so the graph of the current context
  starts empty.
\<close>

definition start ::
  "StartEnv \<Rightarrow> real \<Rightarrow> nat list \<Rightarrow> AudioRecorderService \<Rightarrow> string option \<times> AudioRecorderService" where
  "start env now bins r =
     (let r0 = reset (r\<lparr>updateCallback := True\<rparr>)
      in case getUserMedia env of
           Inl msg \<Rightarrow> (Some (''Could not start recording: '' @ msg), reset r0)
         | Inr n \<Rightarrow>
             (let r1 = r0\<lparr>stream := True, mic_tracks := replicate n True\<rparr>;
                  r2 = buildGraph r1
              in case newMediaRecorder env of
                   Some msg \<Rightarrow> (Some (''Could not start recording: '' @ msg), reset r2)
                 | None \<Rightarrow>
                     (let r3 = r2\<lparr>mediaRecorder := Some rs_inactive\<rparr>;
                          r4 = r3\<lparr>startTime := now\<rparr>;
                          r5 = r4\<lparr>mediaRecorder := Some rs_recording\<rparr>;
                          (i, w) = setInterval (timers r5);
                          r6 = r5\<lparr>timers := w, intervalId := Some i\<rparr>
                      in (None, updateState now bins r6))))"

definition pause :: "real \<Rightarrow> nat list \<Rightarrow> AudioRecorderService \<Rightarrow> AudioRecorderService" where
  "pause now bins r =
     (if mediaRecorder r = Some rs_recording
      then (let r1 = r\<lparr>mediaRecorder := Some rs_paused\<rparr>;
                r2 = r1\<lparr>pausedTime := (now - startTime r1) / 1000\<rparr>;
                r3 = updateState now bins r2
            in if audioContext r3 = Some ctx_running
               then r3\<lparr>audioContext := Some ctx_suspended\<rparr> else r3)
      else r)"

definition resume :: "real \<Rightarrow> nat list \<Rightarrow> AudioRecorderService \<Rightarrow> AudioRecorderService" where
  "resume now bins r =
     (if mediaRecorder r = Some rs_paused
      then (let r1 = (if audioContext r = Some ctx_suspended
                      then r\<lparr>audioContext := Some ctx_running\<rparr> else r);
                r2 = r1\<lparr>mediaRecorder := Some rs_recording\<rparr>;
                r3 = r2\<lparr>startTime := now - pausedTime r2 * 1000\<rparr>
            in updateState now bins r3)
      else r)"

text \<open>The two handlers that \<open>start\<close> installs on the \<open>MediaRecorder\<close>.\<close>

definition ondataavailable :: "Blob \<Rightarrow> AudioRecorderService \<Rightarrow> AudioRecorderService" where
  "ondataavailable chunk r =
     (if length chunk > 0 then r\<lparr>audioChunks := audioChunks r @ [chunk]\<rparr> else r)"

definition onstop :: "real \<Rightarrow> nat list \<Rightarrow> AudioRecorderService \<Rightarrow> AudioRecorderService" where
  "onstop now bins r =
     (let r1 = updateState now bins r;
          r2 = (if stream r1 then stopTracks r1 else r1)
      in disposeAudioNodes r2)"

text \<open>
  \<open>stop\<close>: \<open>mediaRecorder.stop()\<close> makes the recorder inactive; the browser then delivers
  the remaining data (\<open>final\<close>) to \<open>ondataavailable\<close> and fires \<open>onstop\<close>.
\<close>

definition stop :: "real \<Rightarrow> nat list \<Rightarrow> Blob \<Rightarrow> AudioRecorderService \<Rightarrow> AudioRecorderService" where
  "stop now bins final r =
     (if mediaRecorder r \<noteq> None \<and> mediaRecorder r \<noteq> Some rs_inactive
      then onstop now bins (ondataavailable final (r\<lparr>mediaRecorder := Some rs_inactive\<rparr>))
      else r)"

definition getAudioBlob :: "AudioRecorderService \<Rightarrow> Blob option" where
  "getAudioBlob r = (if length (audioChunks r) = 0 then None else Some (concat (audioChunks r)))"

text \<open>The callback of the 100 ms interval timer runs as long as the timer is active.\<close>

definition timerActive :: "AudioRecorderService \<Rightarrow> bool" where
  "timerActive r = (case intervalId r of None \<Rightarrow> False | Some i \<Rightarrow> i \<in> set (active (timers r)))"

definition tick :: "real \<Rightarrow> nat list \<Rightarrow> AudioRecorderService \<Rightarrow> AudioRecorderService" where
  "tick now bins r = (if timerActive r then updateState now bins r else r)"

text \<open>The exported singleton \<open>audioRecorder\<close>: field initialisers, then \<open>reset\<close>.\<close>

definition newRecorder :: AudioRecorderService where
  "newRecorder = reset
     \<lparr>audioContext = None, sourceNode = False, analyserNode = None, processorNode = False,
      highpassFilter = None, lowpassFilter = None, compressorNode = None,
      mediaRecorder = None, audioChunks = [], stream = False, startTime = 0, pausedTime = 0,
      updateCallback = False, intervalId = None, level = 0, dataArray = None,
      graph = [], mic_tracks = [], timers = \<lparr>active = [], next_id = 1\<rparr>, emitted = []\<rparr>"

text \<open>
  What can happen to the recorder: calls of its public methods, a firing of the interval
  timer, and a chunk delivered by the \<open>MediaRecorder\<close> (every second while it records).
\<close>

datatype RecEvent =
    Start StartEnv real "nat list"
  | Pause real "nat list"
  | Resume real "nat list"
  | Stop real "nat list" Blob
  | Tick real "nat list"
  | DataAvailable Blob

fun step :: "RecEvent \<Rightarrow> AudioRecorderService \<Rightarrow> AudioRecorderService" where
  "step (Start env now bins) r = snd (start env now bins r)"
| "step (Pause now bins) r = pause now bins r"
| "step (Resume now bins) r = resume now bins r"
| "step (Stop now bins final) r = stop now bins final r"
| "step (Tick now bins) r = tick now bins r"
| "step (DataAvailable chunk) r =
     (if mediaRecorder r = Some rs_recording then ondataavailable chunk r else r)"

fun run :: "RecEvent list \<Rightarrow> AudioRecorderService \<Rightarrow> AudioRecorderService" where
  "run [] r = r"
| "run (e # es) r = run es (step e r)"

text \<open>
  A stopwatch that runs only in the Recording state: for each event that reports
  telemetry, the time (in milliseconds) spent recording up to that event, paused
  intervals excluded.  \<open>since\<close> is when the current recording interval began, \<open>acc\<close>
  the length of the recording intervals already finished.
\<close>

datatype Phase = Idle | InRecording | InPaused

fun stopwatch :: "Phase \<Rightarrow> real \<Rightarrow> real \<Rightarrow> RecEvent list \<Rightarrow> real list" where
  "stopwatch ph since acc [] = []"
| "stopwatch InRecording since acc (Pause t b # es) =
     (acc + (t - since)) # stopwatch InPaused since (acc + (t - since)) es"
| "stopwatch InPaused since acc (Resume t b # es) = acc # stopwatch InRecording t acc es"
| "stopwatch InRecording since acc (Stop t b f # es) =
     (acc + (t - since)) # stopwatch Idle since (acc + (t - since)) es"
| "stopwatch InRecording since acc (Tick t b # es) =
     (acc + (t - since)) # stopwatch InRecording since acc es"
| "stopwatch InPaused since acc (Tick t b # es) = acc # stopwatch InPaused since acc es"
| "stopwatch ph since acc (DataAvailable c # es) = stopwatch ph since acc es"
| "stopwatch ph since acc (e # es) = []"

text \<open>
  The capture sequences: a successful start at a positive clock value, then pauses and
  resumes in alternation, with timer ticks and data chunks in between, in chronological
  order, ended (if at all) by a stop while recording.
\<close>

fun captureBody :: "Phase \<Rightarrow> real \<Rightarrow> RecEvent list \<Rightarrow> bool" where
  "captureBody ph t [] = True"
| "captureBody InRecording t (Pause t' b # es) = (t \<le> t' \<and> captureBody InPaused t' es)"
| "captureBody InPaused t (Resume t' b # es) = (t \<le> t' \<and> captureBody InRecording t' es)"
| "captureBody InRecording t (Stop t' b f # es) = (t \<le> t' \<and> es = [])"
| "captureBody InRecording t (Tick t' b # es) = (t \<le> t' \<and> captureBody InRecording t' es)"
| "captureBody InPaused t (Tick t' b # es) = (t \<le> t' \<and> captureBody InPaused t' es)"
| "captureBody InRecording t (DataAvailable c # es) = captureBody InRecording t es"
| "captureBody ph t (e # es) = False"

definition granted :: "StartEnv \<Rightarrow> bool" where
  "granted env = (case getUserMedia env of Inl msg \<Rightarrow> False | Inr n \<Rightarrow> newMediaRecorder env = None)"

definition durations :: "AudioRecorderService \<Rightarrow> real list" where
  "durations r = map rec_duration (emitted r)"

definition micGranted :: StartEnv where
  "micGranted = \<lparr>getUserMedia = Inr 1, newMediaRecorder = None\<rparr>"

definition micDenied :: StartEnv where
  "micDenied = \<lparr>getUserMedia = Inl ''Permission denied'', newMediaRecorder = None\<rparr>"

text \<open>Release of what the engine acquires: the processing nodes and the input tracks.\<close>

definition nodesReleased :: "AudioRecorderService \<Rightarrow> bool" where
  "nodesReleased r =
     (\<not> sourceNode r \<and> analyserNode r = None \<and> \<not> processorNode r \<and> highpassFilter r = None
      \<and> lowpassFilter r = None \<and> compressorNode r = None \<and> graph r = [])"

definition tracksStopped :: "AudioRecorderService \<Rightarrow> bool" where
  "tracksStopped r = list_all (\<lambda>live. \<not> live) (mic_tracks r)"

text \<open>
  The invariant that links the service to the stopwatch: in the Recording state the
  start baseline is the beginning of the current interval moved back by the time already
  recorded, in the Paused state the frozen duration is the time already recorded.
\<close>

definition recInv :: "Phase \<Rightarrow> real \<Rightarrow> real \<Rightarrow> real \<Rightarrow> AudioRecorderService \<Rightarrow> bool" where
  "recInv ph since acc t r =
     (updateCallback r \<and> timerActive r \<and> 0 < startTime r \<and>
      (case ph of
         Idle \<Rightarrow> False
       | InRecording \<Rightarrow> mediaRecorder r = Some rs_recording \<and> startTime r = since - acc
       | InPaused \<Rightarrow> mediaRecorder r = Some rs_paused \<and> pausedTime r * 1000 = acc \<and> acc < t))"

text \<open>
  Whether the field that holds a node is set.  In every state the service reaches, each
  connection of the graph leaves a node whose field is set.
\<close>

fun nodeSet :: "AudioNode \<Rightarrow> AudioRecorderService \<Rightarrow> bool" where
  "nodeSet Source r = sourceNode r"
| "nodeSet Highpass r = (highpassFilter r \<noteq> None)"
| "nodeSet Lowpass r = (lowpassFilter r \<noteq> None)"
| "nodeSet Compressor r = (compressorNode r \<noteq> None)"
| "nodeSet Analyser r = (analyserNode r \<noteq> None)"
| "nodeSet Processor r = processorNode r"
| "nodeSet Destination r = False"

definition graphTracked :: "AudioRecorderService \<Rightarrow> bool" where
  "graphTracked r = list_all (\<lambda>(a, b). nodeSet a r) (graph r)"

text \<open>Concrete runs from the freshly constructed recorder.\<close>

definition recordedThenStopped :: AudioRecorderService where
  "recordedThenStopped =
     run [Start micGranted 1000 [], DataAvailable [1, 2], Stop 3000 [] [3]] newRecorder"

definition pausedCapture :: "RecEvent list" where
  "pausedCapture =
     [Start micGranted 1000 [], Pause 2000 [], Resume 4000 [], Stop 5000 [] [3]]"

definition startDenied :: AudioRecorderService where
  "startDenied = run [Start micDenied 1000 []] newRecorder"

definition startedRecorder :: AudioRecorderService where
  "startedRecorder = snd (start micGranted 1000 [] newRecorder)"

section \<open>Transcription queue orchestration\<close>

text \<open>
  The queue is driven from two places.  \<open>handleSaveRecording\<close> (recorder component), once
  the conversation is persisted, calls \<open>addToTranscriptionQueue\<close>, then
  \<open>updateTranscriptionQueueItem(id, {status: 'processing'})\<close>, sends the transcribe request
  without awaiting it, and marks the job \<open>completed\<close> or \<open>failed\<close> when the request
  settles.  The \<open>TranscriptionQueue\<close> component removes a job when the user clicks its
  dismiss button, and its effect, which runs after every change of the queue, arms a
  5000 ms timeout for every job that is \<open>completed\<close> at that moment; the timeout removes
  the job with that id.  The statements of \<open>handleSaveRecording\<close> after the dispatch
  (\<open>resetSession\<close> and the session-data updates) do not write the queue and are left out;
  the notification and logging calls inside the callbacks are taken not to throw, so
  that exactly one of the callbacks writes the outcome.

  The state is the store together with the pending timeouts (due time and conversation
  id, in the order they were armed; all have the same delay, so this is the order in
  which they fall due).
\<close>

datatype ApiResult = ResponseOk | ResponseNotOk string | Rejected "string option"

datatype QEvent =
    Enqueue QueueItemInput
  | Dispatch int
  | Settled int ApiResult
  | Dismiss int
  | Fire

record QueueWorld =
  store :: SessionState
  timeouts :: "(real \<times> int) list"

definition initialWorld :: "string \<Rightarrow> QueueWorld" where
  "initialWorld today = \<lparr>store = initialSessionState today, timeouts = []\<rparr>"

text \<open>The effect of the queue component.\<close>

definition evictionEffect :: "real \<Rightarrow> QueueWorld \<Rightarrow> QueueWorld" where
  "evictionEffect now w =
     w\<lparr>timeouts := timeouts w @
         map (\<lambda>item. (now + 5000, conversationId item))
           (filter (\<lambda>item. status item = Completed) (transcriptionQueue (store w)))\<rparr>"

text \<open>The update that the \<open>then\<close> and \<open>catch\<close> callbacks of the request apply.\<close>

definition settleUpdate :: "ApiResult \<Rightarrow> QueueItemUpdate" where
  "settleUpdate res =
     (case res of
        ResponseOk \<Rightarrow> statusUpdate Completed None
      | ResponseNotOk statusText \<Rightarrow> statusUpdate Failed (Some (''Failed to transcribe: '' @ statusText))
      | Rejected msg \<Rightarrow>
          statusUpdate Failed (Some (case msg of Some m \<Rightarrow> m | None \<Rightarrow> ''Unknown error'')))"

text \<open>The dismiss button is rendered only for a completed or failed job.\<close>

definition dismissible :: "int \<Rightarrow> SessionState \<Rightarrow> bool" where
  "dismissible cid s =
     list_ex (\<lambda>item. conversationId item = cid \<and> (status item = Completed \<or> status item = Failed))
       (transcriptionQueue s)"

text \<open>
  One step at clock value \<open>now\<close>.  \<open>Fire\<close> is the oldest pending timeout running its
  callback, which cannot happen before it is due.
\<close>

fun qstep :: "real \<Rightarrow> QEvent \<Rightarrow> QueueWorld \<Rightarrow> QueueWorld" where
  "qstep now (Enqueue item) w =
     evictionEffect now (w\<lparr>store := addToTranscriptionQueue item (store w)\<rparr>)"
| "qstep now (Dispatch cid) w =
     evictionEffect now
       (w\<lparr>store := updateTranscriptionQueueItem cid (statusUpdate Processing None) (store w)\<rparr>)"
| "qstep now (Settled cid res) w =
     evictionEffect now
       (w\<lparr>store := updateTranscriptionQueueItem cid (settleUpdate res) (store w)\<rparr>)"
| "qstep now (Dismiss cid) w =
     (if dismissible cid (store w)
      then evictionEffect now (w\<lparr>store := removeFromTranscriptionQueue cid (store w)\<rparr>)
      else w)"
| "qstep now Fire w =
     (case timeouts w of
        [] \<Rightarrow> w
      | (due, cid) # rest \<Rightarrow>
          if due \<le> now
          then evictionEffect now
                 (w\<lparr>store := removeFromTranscriptionQueue cid (store w), timeouts := rest\<rparr>)
          else w)"

fun qrun :: "(real \<times> QEvent) list \<Rightarrow> QueueWorld \<Rightarrow> QueueWorld" where
  "qrun [] w = w"
| "qrun ((t, e) # es) w = qrun es (qstep t e w)"

text \<open>
  The traces the system produces: clock values do not decrease; every enqueue carries a
  conversation id that was not enqueued before (the id is the serial key of the
  conversation just created) and is followed at once by the dispatch of that id; a
  request settles once, after its dispatch.  \<open>used\<close> are the ids enqueued so far, \<open>infl\<close>
  the ids whose request is in flight, \<open>aw\<close> the id enqueued and not yet dispatched.
\<close>

fun sysOrder :: "real \<Rightarrow> int set \<Rightarrow> int set \<Rightarrow> int option \<Rightarrow> (real \<times> QEvent) list \<Rightarrow> bool" where
  "sysOrder t used infl aw [] = True"
| "sysOrder t used infl None ((t1, Enqueue item) # es) =
     (t \<le> t1 \<and> in_conversationId item \<notin> used
      \<and> sysOrder t1 (insert (in_conversationId item) used) infl (Some (in_conversationId item)) es)"
| "sysOrder t used infl (Some c) ((t1, Dispatch cid) # es) =
     (t1 = t \<and> cid = c \<and> sysOrder t1 used (insert c infl) None es)"
| "sysOrder t used infl None ((t1, Settled cid res) # es) =
     (t \<le> t1 \<and> cid \<in> infl \<and> sysOrder t1 used (infl - {cid}) None es)"
| "sysOrder t used infl None ((t1, Dismiss cid) # es) = (t \<le> t1 \<and> sysOrder t1 used infl None es)"
| "sysOrder t used infl None ((t1, Fire) # es) = (t \<le> t1 \<and> sysOrder t1 used infl None es)"
| "sysOrder t used infl aw (e # es) = False"

definition systemTrace :: "(real \<times> QEvent) list \<Rightarrow> bool" where
  "systemTrace es = sysOrder 0 {} {} None es"

text \<open>
  A scheduler with slack \<open>slack\<close>: whenever something happens at clock value \<open>t\<close>, no
  pending timeout has been due for longer than \<open>slack\<close>.
\<close>

fun prompt :: "real \<Rightarrow> (real \<times> QEvent) list \<Rightarrow> QueueWorld \<Rightarrow> bool" where
  "prompt slack [] w = True"
| "prompt slack ((t, e) # es) w =
     (list_all (\<lambda>(due, cid). t \<le> due + slack) (timeouts w) \<and> prompt slack es (qstep t e w))"

text \<open>The statuses of the jobs with a given id, and their history along a run.\<close>

definition observe :: "int \<Rightarrow> QueueWorld \<Rightarrow> JobStatus list" where
  "observe cid w =
     map status (filter (\<lambda>item. conversationId item = cid) (transcriptionQueue (store w)))"

fun history :: "int \<Rightarrow> (real \<times> QEvent) list \<Rightarrow> QueueWorld \<Rightarrow> JobStatus list" where
  "history cid [] w = []"
| "history cid ((t, e) # es) w = observe cid (qstep t e w) @ history cid es (qstep t e w)"

fun statusRank :: "JobStatus \<Rightarrow> nat" where
  "statusRank Pending = 0"
| "statusRank Processing = 1"
| "statusRank Completed = 2"
| "statusRank Failed = 2"

text \<open>A status does not come before another: it is the same or an earlier stage.\<close>

definition status_le :: "JobStatus \<Rightarrow> JobStatus \<Rightarrow> bool" where
  "status_le a b = (a = b \<or> statusRank a < statusRank b)"

definition outcomeStatus :: "ApiResult \<Rightarrow> JobStatus" where
  "outcomeStatus res = (case res of ResponseOk \<Rightarrow> Completed | _ \<Rightarrow> Failed)"

text \<open>The invariant of a system trace that fixes the stage \<open>L\<close> of the job with id \<open>c\<close>.\<close>

definition stageOf :: "int \<Rightarrow> int set \<Rightarrow> int set \<Rightarrow> int option \<Rightarrow> JobStatus \<Rightarrow> bool" where
  "stageOf c used infl aw L =
     (infl \<subseteq> used
      \<and> (case aw of None \<Rightarrow> True | Some c' \<Rightarrow> c' \<in> used \<and> c' \<notin> infl)
      \<and> (if c \<notin> used then L = Pending
          else if aw = Some c then L = Pending
          else if c \<in> infl then L = Processing
          else statusRank L = 2))"

text \<open>Presence of a job with a given id and status, absence of any job with the id.\<close>

definition jobPresent :: "int \<Rightarrow> JobStatus \<Rightarrow> QueueWorld \<Rightarrow> bool" where
  "jobPresent cid st w =
     list_ex (\<lambda>item. conversationId item = cid \<and> status item = st) (transcriptionQueue (store w))"

definition jobAbsent :: "int \<Rightarrow> QueueWorld \<Rightarrow> bool" where
  "jobAbsent cid w = (cid \<notin> set (queueIds (store w)))"

definition noDismiss :: "int \<Rightarrow> (real \<times> QEvent) list \<Rightarrow> bool" where
  "noDismiss cid es = list_all (\<lambda>(t, e). e \<noteq> Dismiss cid) es"

definition lastTime :: "real \<Rightarrow> (real \<times> QEvent) list \<Rightarrow> real" where
  "lastTime t es = (if es = [] then t else fst (last es))"

text \<open>
  The due times of the pending timeouts that carry a given id, and the invariants of a
  job once its request has settled at clock value \<open>T\<close>: after success every timeout for
  it is due at \<open>T + 5000\<close> or later and, while the job is in the queue, the one armed at
  \<open>T\<close> is pending; after failure no timeout for it exists.
\<close>

definition timersFor :: "int \<Rightarrow> QueueWorld \<Rightarrow> real list" where
  "timersFor c w = map fst (filter (\<lambda>(due, cid). cid = c) (timeouts w))"

definition okInv :: "real \<Rightarrow> int \<Rightarrow> QueueWorld \<Rightarrow> bool" where
  "okInv T c w =
     (list_all (\<lambda>x. x = Completed) (observe c w)
      \<and> list_all (\<lambda>due. T + 5000 \<le> due) (timersFor c w)
      \<and> (observe c w = [] \<or> T + 5000 \<in> set (timersFor c w)))"

definition failInv :: "int \<Rightarrow> QueueWorld \<Rightarrow> bool" where
  "failInv c w = (list_all (\<lambda>x. x = Failed) (observe c w) \<and> timersFor c w = [])"

text \<open>Whether an event is one of the three that \<open>handleSaveRecording\<close> issues for the id.\<close>

fun about :: "int \<Rightarrow> QEvent \<Rightarrow> bool" where
  "about c (Enqueue item) = (in_conversationId item = c)"
| "about c (Dispatch cid) = (cid = c)"
| "about c (Settled cid res) = (cid = c)"
| "about c (Dismiss cid) = False"
| "about c Fire = False"

text \<open>
  The invariant of the job with id \<open>c\<close> before its request settles: no timeout carries
  the id, and the queue holds no job with the id before the enqueue, one Pending job
  between enqueue and dispatch, one Processing job while the request is in flight.
\<close>

definition preInv :: "int \<Rightarrow> int set \<Rightarrow> int set \<Rightarrow> int option \<Rightarrow> QueueWorld \<Rightarrow> bool" where
  "preInv c used infl aw w =
     (timersFor c w = [] \<and> infl \<subseteq> used
      \<and> (case aw of None \<Rightarrow> True | Some c' \<Rightarrow> c' \<in> used \<and> c' \<notin> infl)
      \<and> (if c \<notin> used then observe c w = []
          else if aw = Some c then observe c w = [Pending]
          else c \<in> infl \<and> observe c w = [Processing]))"

text \<open>Clock values in non-decreasing order, and traces without an event about an id.\<close>

fun chrono :: "real \<Rightarrow> (real \<times> QEvent) list \<Rightarrow> bool" where
  "chrono t [] = True"
| "chrono t ((t1, e) # es) = (t \<le> t1 \<and> chrono t1 es)"

definition others :: "int \<Rightarrow> (real \<times> QEvent) list \<Rightarrow> bool" where
  "others c es = list_all (\<lambda>(t, e). \<not> about c e) es"

text \<open>A recording of conversation 7 saved at clock value 1000.\<close>

definition savedJob7 :: "(real \<times> QEvent) list" where
  "savedJob7 = [(1000, Enqueue job7), (1000, Dispatch 7)]"

section \<open>Properties of the session store\<close>

lemma queueIds_add:
  "queueIds (addToTranscriptionQueue item s) = queueIds s @ [in_conversationId item]"
  by (simp add: queueIds_def addToTranscriptionQueue_def pendingItem_def)

lemma map_update_absent:
  "cid \<notin> conversationId ` set q \<Longrightarrow>
   map (\<lambda>item. if conversationId item = cid then mergeItem item update else item) q = q"
  by (induction q) auto

text \<open>
  C1 (as stated, refuted): enqueueing an id that is already in the queue does not
  overwrite the existing job.  After two enqueues of conversation 7 on the initial store
  the queue holds two jobs, both with id 7.
\<close>

theorem addToTranscriptionQueue_duplicates:
  "queueIds (addToTranscriptionQueue job7 (addToTranscriptionQueue job7 (initialSessionState ''2024-01-01'')))
     = [7, 7]"
  by (simp add: queueIds_def addToTranscriptionQueue_def pendingItem_def job7_def
      initialSessionState_def)

text \<open>
  C1 (amended): \<open>addToTranscriptionQueue\<close> appends exactly one \<open>Pending\<close> job carrying the
  given fields at the end of the queue and keeps every existing entry as it is; when the
  ids in the queue are pairwise distinct and the enqueued id is not among them, the ids
  are pairwise distinct afterwards as well.
\<close>

theorem addToTranscriptionQueue_appends:
  "transcriptionQueue (addToTranscriptionQueue item s) = transcriptionQueue s @ [pendingItem item]
   \<and> status (pendingItem item) = Pending
   \<and> conversationId (pendingItem item) = in_conversationId item
   \<and> (distinct (queueIds s) \<and> in_conversationId item \<notin> set (queueIds s)
        \<longrightarrow> distinct (queueIds (addToTranscriptionQueue item s)))"
  by (simp add: queueIds_def addToTranscriptionQueue_def pendingItem_def)

theorem addToTranscriptionQueue_appends_witness:
  "distinct (queueIds (addToTranscriptionQueue job7 (initialSessionState ''2024-01-01'')))
   \<and> in_conversationId job9 \<notin> set (queueIds (addToTranscriptionQueue job7 (initialSessionState ''2024-01-01'')))
   \<and> distinct (queueIds (addToTranscriptionQueue job9
        (addToTranscriptionQueue job7 (initialSessionState ''2024-01-01''))))"
proof -
  let ?s = "addToTranscriptionQueue job7 (initialSessionState ''2024-01-01'')"
  have ids: "queueIds ?s = [7]"
    by (simp add: queueIds_def addToTranscriptionQueue_def pendingItem_def job7_def
        initialSessionState_def)
  have pre: "distinct (queueIds ?s) \<and> in_conversationId job9 \<notin> set (queueIds ?s)"
    by (simp add: ids job9_def)
  from addToTranscriptionQueue_appends [of job9 ?s] pre
  show ?thesis by blast
qed

text \<open>
  C7: for every prior store state, \<open>resetSession\<close> puts the session-entry fields, the
  recording and playback telemetry, \<open>isTranscribing\<close>, \<open>transcriptSearchQuery\<close> and
  \<open>currentConversation\<close> back to the values of the initial store, and the transcription
  queue is exactly the one before the call.
\<close>

theorem resetSession_preserves_queue:
  "currentSessionData (resetSession today s) = currentSessionData (initialSessionState today)
   \<and> recordingState (resetSession today s) = recordingState (initialSessionState today)
   \<and> playbackState (resetSession today s) = playbackState (initialSessionState today)
   \<and> isTranscribing (resetSession today s) = isTranscribing (initialSessionState today)
   \<and> transcriptSearchQuery (resetSession today s) = transcriptSearchQuery (initialSessionState today)
   \<and> currentConversation (resetSession today s) = currentConversation (initialSessionState today)
   \<and> transcriptionQueue (resetSession today s) = transcriptionQueue s"
  by (simp add: resetSession_def initialSessionState_def)

lemma mergeItem_fields:
  "conversationId (mergeItem item update)
     = (case upd_conversationId update of None \<Rightarrow> conversationId item | Some c \<Rightarrow> c)"
  "audioPath (mergeItem item update)
     = (case upd_audioPath update of None \<Rightarrow> audioPath item | Some p \<Rightarrow> p)"
  "status (mergeItem item update)
     = (case upd_status update of None \<Rightarrow> status item | Some st \<Rightarrow> st)"
  "error (mergeItem item update)
     = (case upd_error update of None \<Rightarrow> error item | Some e \<Rightarrow> e)"
  by (simp_all add: mergeItem_def)

text \<open>
  C9: when no job in the queue has the given id, \<open>updateTranscriptionQueueItem\<close> returns
  the store state it was given (there is no error branch).  In general the call writes
  nothing but the queue, the queue keeps its length and order, every job with another id
  is unchanged, and in a job with the given id each of the four fields takes the value
  given in the update when the update has that field and keeps its old value when it has
  not.
\<close>

theorem updateTranscriptionQueueItem_frame:
  "(cid \<notin> set (queueIds s) \<longrightarrow> updateTranscriptionQueueItem cid update s = s)
   \<and> updateTranscriptionQueueItem cid update s
       = s\<lparr>transcriptionQueue := transcriptionQueue (updateTranscriptionQueueItem cid update s)\<rparr>
   \<and> length (transcriptionQueue (updateTranscriptionQueueItem cid update s))
       = length (transcriptionQueue s)
   \<and> (\<forall>i < length (transcriptionQueue s).
        (conversationId (transcriptionQueue s ! i) \<noteq> cid \<longrightarrow>
           transcriptionQueue (updateTranscriptionQueueItem cid update s) ! i
             = transcriptionQueue s ! i)
        \<and> (conversationId (transcriptionQueue s ! i) = cid \<longrightarrow>
             conversationId (transcriptionQueue (updateTranscriptionQueueItem cid update s) ! i)
               = (case upd_conversationId update of
                    None \<Rightarrow> conversationId (transcriptionQueue s ! i) | Some c \<Rightarrow> c)
           \<and> audioPath (transcriptionQueue (updateTranscriptionQueueItem cid update s) ! i)
               = (case upd_audioPath update of
                    None \<Rightarrow> audioPath (transcriptionQueue s ! i) | Some p \<Rightarrow> p)
           \<and> status (transcriptionQueue (updateTranscriptionQueueItem cid update s) ! i)
               = (case upd_status update of
                    None \<Rightarrow> status (transcriptionQueue s ! i) | Some st \<Rightarrow> st)
           \<and> error (transcriptionQueue (updateTranscriptionQueueItem cid update s) ! i)
               = (case upd_error update of
                    None \<Rightarrow> error (transcriptionQueue s ! i) | Some e \<Rightarrow> e)))"
  by (simp add: updateTranscriptionQueueItem_def queueIds_def map_update_absent mergeItem_fields)

theorem updateTranscriptionQueueItem_frame_witness:
  "9 \<notin> set (queueIds (addToTranscriptionQueue job7 (initialSessionState ''2024-01-01'')))
   \<and> updateTranscriptionQueueItem 9 (statusUpdate Processing None)
        (addToTranscriptionQueue job7 (initialSessionState ''2024-01-01''))
      = addToTranscriptionQueue job7 (initialSessionState ''2024-01-01'')
   \<and> (0::nat) < length (transcriptionQueue twoJobs) \<and> (1::nat) < length (transcriptionQueue twoJobs)
   \<and> conversationId (transcriptionQueue twoJobs ! 0) = 7
   \<and> conversationId (transcriptionQueue twoJobs ! 1) \<noteq> 7
   \<and> conversationId (transcriptionQueue
        (updateTranscriptionQueueItem 7 (statusUpdate Failed (Some ''boom'')) twoJobs) ! 0) = 7
   \<and> audioPath (transcriptionQueue
        (updateTranscriptionQueueItem 7 (statusUpdate Failed (Some ''boom'')) twoJobs) ! 0) = ''a.wav''
   \<and> status (transcriptionQueue
        (updateTranscriptionQueueItem 7 (statusUpdate Failed (Some ''boom'')) twoJobs) ! 0) = Failed
   \<and> error (transcriptionQueue
        (updateTranscriptionQueueItem 7 (statusUpdate Failed (Some ''boom'')) twoJobs) ! 0)
       = Some ''boom''
   \<and> transcriptionQueue (updateTranscriptionQueueItem 7 (statusUpdate Failed (Some ''boom'')) twoJobs) ! 1
       = pendingItem job9"
proof -
  let ?s = "addToTranscriptionQueue job7 (initialSessionState ''2024-01-01'')"
  let ?u = "statusUpdate Failed (Some ''boom'')"
  let ?q' = "transcriptionQueue (updateTranscriptionQueueItem 7 ?u twoJobs)"
  have ids: "queueIds ?s = [7]"
    by (simp add: queueIds_add) (simp add: queueIds_def initialSessionState_def job7_def)
  have absent: "9 \<notin> set (queueIds ?s)" by (simp add: ids)
  have noop: "updateTranscriptionQueueItem 9 (statusUpdate Processing None) ?s = ?s"
    using updateTranscriptionQueueItem_frame [of 9 ?s "statusUpdate Processing None"] absent
    by blast
  have q: "transcriptionQueue twoJobs = [pendingItem job7, pendingItem job9]"
    by (simp add: twoJobs_def addToTranscriptionQueue_def initialSessionState_def)
  have len: "(0::nat) < length (transcriptionQueue twoJobs)"
    "(1::nat) < length (transcriptionQueue twoJobs)" by (simp_all add: q)
  have i0: "conversationId (transcriptionQueue twoJobs ! 0) = 7"
    and i1: "conversationId (transcriptionQueue twoJobs ! 1) \<noteq> 7"
    by (simp_all add: q pendingItem_def job7_def job9_def)
  have a0: "audioPath (transcriptionQueue twoJobs ! 0) = ''a.wav''"
    and e1: "transcriptionQueue twoJobs ! 1 = pendingItem job9"
    by (simp_all add: q pendingItem_def job7_def)
  have u: "upd_conversationId ?u = None" "upd_audioPath ?u = None" "upd_status ?u = Some Failed"
    "upd_error ?u = Some (Some ''boom'')" by (simp_all add: statusUpdate_def)
  note fr = updateTranscriptionQueueItem_frame [of 7 twoJobs ?u]
  from fr len(1) i0 have f0:
    "conversationId (?q' ! 0)
       = (case upd_conversationId ?u of None \<Rightarrow> conversationId (transcriptionQueue twoJobs ! 0) | Some c \<Rightarrow> c)"
    "audioPath (?q' ! 0)
       = (case upd_audioPath ?u of None \<Rightarrow> audioPath (transcriptionQueue twoJobs ! 0) | Some p \<Rightarrow> p)"
    "status (?q' ! 0)
       = (case upd_status ?u of None \<Rightarrow> status (transcriptionQueue twoJobs ! 0) | Some st \<Rightarrow> st)"
    "error (?q' ! 0)
       = (case upd_error ?u of None \<Rightarrow> error (transcriptionQueue twoJobs ! 0) | Some e \<Rightarrow> e)"
    by blast+
  from fr len(2) i1 have f1: "?q' ! 1 = transcriptionQueue twoJobs ! 1" by blast
  have r0: "conversationId (?q' ! 0) = 7" "audioPath (?q' ! 0) = ''a.wav''"
    "status (?q' ! 0) = Failed" "error (?q' ! 0) = Some ''boom''"
    unfolding f0 u by (simp_all add: i0 a0)
  have r1: "?q' ! 1 = pendingItem job9" unfolding f1 by (rule e1)
  from absent noop len i0 i1 r0 r1 show ?thesis by blast
qed

section \<open>Properties of \<open>formatTime\<close>\<close>

lemma padStart_digits: "n < 100 \<Longrightarrow> padStart 2 (CHR ''0'') (digits n) = two_digits n"
proof (cases "n < 10")
  case True
  then show ?thesis by (simp add: padStart_def two_digits_def digits.simps [of n] digit_char_def)
next
  case False
  assume "n < 100"
  with False have "n div 10 < 10" by simp
  with False show ?thesis
    by (simp add: padStart_def two_digits_def digits.simps [of n] digits.simps [of "n div 10"])
qed

text \<open>
  For a non-negative dividend and a positive whole divisor, the whole part of the
  JavaScript remainder is the integer remainder of the whole part.
\<close>

lemma js_rem_floor:
  assumes "0 \<le> x" "0 < m"
  shows "\<lfloor>js_rem x (of_int m)\<rfloor> = \<lfloor>x\<rfloor> mod m"
proof -
  from assms have "0 \<le> x / of_int m" by simp
  then have "js_trunc (x / of_int m) = \<lfloor>x / of_int m\<rfloor>" by (simp add: js_trunc_def)
  also from assms have "\<dots> = \<lfloor>x\<rfloor> div m" by (simp add: floor_divide_real_eq_div)
  finally have "js_rem x (of_int m) = x - of_int (m * (\<lfloor>x\<rfloor> div m))"
    by (simp add: js_rem_def)
  then have "\<lfloor>js_rem x (of_int m)\<rfloor> = \<lfloor>x\<rfloor> - m * (\<lfloor>x\<rfloor> div m)"
    by (simp only: floor_diff_of_int)
  then show ?thesis by (simp add: minus_mult_div_eq_mod)
qed

lemma toString_small: "0 \<le> i \<Longrightarrow> i < 10 ^ 21 \<Longrightarrow> toString expo i = digits (nat i)"
  by (simp add: toString_def)

lemma formatTime_invalid:
  "formatTime expo Undefined = ''0:00''" "formatTime expo Null = ''0:00''"
  "formatTime expo (Num NaN) = ''0:00''" "formatTime expo (Num PosInf) = ''0:00''"
  "formatTime expo (Num NegInf) = ''0:00''"
  by (simp_all add: formatTime_def js_isNaN_def js_isFinite_def)

lemma digits_0: "digits 0 = ''0''"
  by (simp add: digits.simps [of 0] digit_char_def)

lemma formatTime_negative:
  assumes "x < 0"
  shows "formatTime expo (Num (Fin x)) = ''0:00''"
proof -
  from assms have mx: "js_max (Fin 0) (Fin x) = Fin 0" by (simp add: js_max_def)
  have r: "js_rem 0 3600 = 0" "js_rem 0 60 = 0" by (simp_all add: js_rem_def js_trunc_def)
  have t: "toString expo 0 = ''0''" by (simp add: toString_def digits_0)
  show ?thesis
    by (simp add: formatTime_def js_isNaN_def js_isFinite_def mx r t padStart_def)
qed

lemma formatTime_whole:
  assumes "0 \<le> x"
  shows "formatTime expo (Num (Fin x)) =
     (if 3600 \<le> x
      then toString expo (\<lfloor>x\<rfloor> div 3600) @ '':'' @ two_digits (nat \<lfloor>x\<rfloor> mod 3600 div 60)
             @ '':'' @ two_digits (nat \<lfloor>x\<rfloor> mod 60)
      else digits (nat \<lfloor>x\<rfloor> div 60) @ '':'' @ two_digits (nat \<lfloor>x\<rfloor> mod 60))"
proof -
  let ?t = "\<lfloor>x\<rfloor>"
  from assms have t0: "0 \<le> ?t" by simp
  have h: "\<lfloor>x / 3600\<rfloor> = ?t div 3600"
    using floor_divide_real_eq_div [of 3600 x] by simp
  have s: "\<lfloor>js_rem x 60\<rfloor> = ?t mod 60"
    using js_rem_floor [of x 60] assms by simp
  have m: "\<lfloor>js_rem x 3600 / 60\<rfloor> = ?t mod 3600 div 60"
  proof -
    have "\<lfloor>js_rem x 3600 / 60\<rfloor> = \<lfloor>js_rem x 3600\<rfloor> div 60"
      using floor_divide_real_eq_div [of 60 "js_rem x 3600"] by simp
    also have "\<lfloor>js_rem x 3600\<rfloor> = ?t mod 3600" using js_rem_floor [of x 3600] assms by simp
    finally show ?thesis .
  qed
  have nm: "nat (?t mod 3600 div 60) = nat ?t mod 3600 div 60"
    using t0 by (simp add: nat_div_distrib nat_mod_distrib)
  have ns: "nat (?t mod 60) = nat ?t mod 60" using t0 by (simp add: nat_mod_distrib)
  have m60: "?t mod 3600 div 60 < 60" by simp
  have pm: "padStart 2 (CHR ''0'') (toString expo (?t mod 3600 div 60))
              = two_digits (nat ?t mod 3600 div 60)"
  proof -
    have "nat ?t mod 3600 div 60 < 100"
      by (rule less_trans [of _ 60]) (simp_all add: div_less_iff_less_mult)
    moreover have "toString expo (?t mod 3600 div 60) = digits (nat (?t mod 3600 div 60))"
      using m60 by (intro toString_small) (simp_all add: pos_imp_zdiv_nonneg_iff)
    ultimately show ?thesis by (simp add: nm padStart_digits)
  qed
  have ps: "padStart 2 (CHR ''0'') (toString expo (?t mod 60)) = two_digits (nat ?t mod 60)"
  proof -
    have "nat ?t mod 60 < 100" by (rule less_trans [of _ 60]) simp_all
    moreover have "?t mod 60 < 60" by simp
    then have "toString expo (?t mod 60) = digits (nat (?t mod 60))"
      by (intro toString_small) simp_all
    ultimately show ?thesis by (simp add: ns padStart_digits)
  qed
  have tm: "toString expo (?t mod 3600 div 60) = digits (nat ?t div 60)" if "\<not> 3600 \<le> x"
  proof -
    from that have "?t < 3600" by linarith
    with t0 have e: "?t mod 3600 = ?t" by simp
    have "toString expo (?t mod 3600 div 60) = digits (nat (?t mod 3600 div 60))"
      using m60 by (intro toString_small) (simp_all add: pos_imp_zdiv_nonneg_iff)
    with e t0 show ?thesis by (simp add: nat_div_distrib)
  qed
  have c: "(0 < ?t div 3600) = (3600 \<le> x)"
  proof -
    have "(0 < ?t div 3600) = (3600 \<le> ?t)" by (simp add: pos_imp_zdiv_pos_iff)
    also have "\<dots> = (3600 \<le> x)" by linarith
    finally show ?thesis .
  qed
  from assms have mx: "js_max (Fin 0) (Fin x) = Fin x" by (simp add: js_max_def)
  show ?thesis
    unfolding formatTime_def
    by (simp add: js_isNaN_def js_isFinite_def mx Let_def h s m c pm ps tm)
qed

text \<open>
  C10: \<open>formatTime\<close> has no failing branch and returns a string for every input.  It
  returns \<open>0:00\<close> for \<open>undefined\<close>, \<open>null\<close>, \<open>NaN\<close>, both infinities and every negative
  number (clamped to 0).  For a finite \<open>x \<ge> 0\<close> with whole part \<open>t\<close> (floor) it returns
  minutes \<open>t div 60\<close>, a colon and the seconds \<open>t mod 60\<close> in two digits when \<open>x < 3600\<close>,
  and hours, minutes and seconds, the last two in two digits each, exactly when
  \<open>x \<ge> 3600\<close>.
\<close>

theorem formatTime_total:
  "formatTime expo Undefined = ''0:00''
   \<and> formatTime expo Null = ''0:00''
   \<and> formatTime expo (Num NaN) = ''0:00''
   \<and> formatTime expo (Num PosInf) = ''0:00''
   \<and> formatTime expo (Num NegInf) = ''0:00''
   \<and> (x < 0 \<longrightarrow> formatTime expo (Num (Fin x)) = ''0:00'')
   \<and> (0 \<le> x \<and> x < 3600 \<longrightarrow>
        formatTime expo (Num (Fin x))
          = digits (nat \<lfloor>x\<rfloor> div 60) @ '':'' @ two_digits (nat \<lfloor>x\<rfloor> mod 60))
   \<and> (3600 \<le> x \<longrightarrow>
        formatTime expo (Num (Fin x))
          = toString expo (\<lfloor>x\<rfloor> div 3600) @ '':'' @ two_digits (nat \<lfloor>x\<rfloor> mod 3600 div 60)
              @ '':'' @ two_digits (nat \<lfloor>x\<rfloor> mod 60))"
  using formatTime_whole [of x expo] formatTime_negative [of x expo]
  by (simp add: formatTime_invalid)

theorem formatTime_total_witness:
  "(-3 :: real) < 0 \<and> formatTime no_expo (Num (Fin (-3))) = ''0:00''
   \<and> (0 :: real) \<le> 75.9 \<and> (75.9 :: real) < 3600 \<and> formatTime no_expo (Num (Fin 75.9)) = ''1:15''
   \<and> (3600 :: real) \<le> 3725.5 \<and> formatTime no_expo (Num (Fin 3725.5)) = ''1:02:05''"
proof -
  have a: "formatTime no_expo (Num (Fin (-3))) = ''0:00''"
    using formatTime_total [of no_expo "-3"] by simp
  have f1: "\<lfloor>75.9 :: real\<rfloor> = 75" by (simp add: floor_eq_iff)
  have f2: "\<lfloor>3725.5 :: real\<rfloor> = 3725" by (simp add: floor_eq_iff)
  have d1: "digits (Suc 0) = ''1''" by (simp add: digits.simps [of "Suc 0"] digit_char_def)
  have b: "formatTime no_expo (Num (Fin 75.9)) = ''1:15''"
    using formatTime_total [of no_expo "75.9"]
    by (simp add: f1 d1 two_digits_def digit_char_def)
  have c: "formatTime no_expo (Num (Fin 3725.5)) = ''1:02:05''"
    using formatTime_total [of no_expo "3725.5"]
    by (simp add: f2 d1 toString_def two_digits_def digit_char_def)
  from a b c show ?thesis by simp
qed

section \<open>Properties of the playback engine\<close>

lemma audio_p_updateState [simp]: "audio (p_updateState p) = audio p"
  by (simp add: p_updateState_def split: option.splits)












section \<open>Properties of the capture engine\<close>

text \<open>What \<open>updateState\<close> and the disposal of the nodes leave untouched.\<close>

lemma updateState_frame [simp]:
  "mediaRecorder (updateState now bins r) = mediaRecorder r"
  "startTime (updateState now bins r) = startTime r"
  "pausedTime (updateState now bins r) = pausedTime r"
  "updateCallback (updateState now bins r) = updateCallback r"
  "intervalId (updateState now bins r) = intervalId r"
  "timers (updateState now bins r) = timers r"
  "audioChunks (updateState now bins r) = audioChunks r"
  "graph (updateState now bins r) = graph r"
  "stream (updateState now bins r) = stream r"
  "mic_tracks (updateState now bins r) = mic_tracks r"
  "audioContext (updateState now bins r) = audioContext r"
  "sourceNode (updateState now bins r) = sourceNode r"
  "processorNode (updateState now bins r) = processorNode r"
  "analyserNode (updateState now bins r) = analyserNode r"
  "highpassFilter (updateState now bins r) = highpassFilter r"
  "lowpassFilter (updateState now bins r) = lowpassFilter r"
  "compressorNode (updateState now bins r) = compressorNode r"
  by (simp_all add: updateState_def updateAudioLevel_def Let_def split: option.splits)

lemma timerActive_frame [simp]:
  "timerActive (updateState now bins r) = timerActive r"
  "timerActive (r\<lparr>mediaRecorder := m\<rparr>) = timerActive r"
  "timerActive (r\<lparr>pausedTime := x\<rparr>) = timerActive r"
  "timerActive (r\<lparr>startTime := x\<rparr>) = timerActive r"
  "timerActive (r\<lparr>audioContext := c\<rparr>) = timerActive r"
  "timerActive (r\<lparr>audioChunks := cs\<rparr>) = timerActive r"
  by (simp_all add: timerActive_def split: option.splits)

lemma updateAudioLevel_frame [simp]:
  "mediaRecorder (updateAudioLevel bins r) = mediaRecorder r"
  "startTime (updateAudioLevel bins r) = startTime r"
  "pausedTime (updateAudioLevel bins r) = pausedTime r"
  "audioChunks (updateAudioLevel bins r) = audioChunks r"
  "emitted (updateAudioLevel bins r) = emitted r"
  by (simp_all add: updateAudioLevel_def Let_def split: option.splits)

lemma emitted_updateState:
  "updateCallback r \<Longrightarrow>
   emitted (updateState now bins r) = emitted r @
     [\<lparr>isRecording = (mediaRecorder r \<noteq> None \<and> mediaRecorder r \<noteq> Some rs_inactive),
       isPaused = (mediaRecorder r = Some rs_paused),
       rec_duration = (if startTime r > 0
                       then (if mediaRecorder r = Some rs_paused then pausedTime r
                             else (now - startTime r) / 1000)
                       else 0),
       audioBlob = (if audioChunks r = [] then None else Some (concat (audioChunks r))),
       audioLevel = Some (level (updateAudioLevel bins r))\<rparr>]"
  by (simp add: updateState_def Let_def)

lemma durations_updateState:
  "updateCallback r \<Longrightarrow>
   durations (updateState now bins r) = durations r @
     [if startTime r > 0
      then (if mediaRecorder r = Some rs_paused then pausedTime r else (now - startTime r) / 1000)
      else 0]"
  by (simp add: durations_def emitted_updateState)

lemma dispose_steps_frame [simp]:
  "emitted (disposeSource r) = emitted r" "emitted (disposeAnalyser r) = emitted r"
  "emitted (disposeProcessor r) = emitted r" "emitted (disposeHighpass r) = emitted r"
  "emitted (disposeLowpass r) = emitted r" "emitted (disposeCompressor r) = emitted r"
  "intervalId (disposeSource r) = intervalId r" "intervalId (disposeAnalyser r) = intervalId r"
  "intervalId (disposeProcessor r) = intervalId r" "intervalId (disposeHighpass r) = intervalId r"
  "intervalId (disposeLowpass r) = intervalId r" "intervalId (disposeCompressor r) = intervalId r"
  "timers (disposeSource r) = timers r" "timers (disposeAnalyser r) = timers r"
  "timers (disposeProcessor r) = timers r" "timers (disposeHighpass r) = timers r"
  "timers (disposeLowpass r) = timers r" "timers (disposeCompressor r) = timers r"
  "mic_tracks (disposeSource r) = mic_tracks r" "mic_tracks (disposeAnalyser r) = mic_tracks r"
  "mic_tracks (disposeProcessor r) = mic_tracks r" "mic_tracks (disposeHighpass r) = mic_tracks r"
  "mic_tracks (disposeLowpass r) = mic_tracks r" "mic_tracks (disposeCompressor r) = mic_tracks r"
  "stream (disposeSource r) = stream r" "stream (disposeAnalyser r) = stream r"
  "stream (disposeProcessor r) = stream r" "stream (disposeHighpass r) = stream r"
  "stream (disposeLowpass r) = stream r" "stream (disposeCompressor r) = stream r"
  "mediaRecorder (disposeSource r) = mediaRecorder r" "mediaRecorder (disposeAnalyser r) = mediaRecorder r"
  "mediaRecorder (disposeProcessor r) = mediaRecorder r" "mediaRecorder (disposeHighpass r) = mediaRecorder r"
  "mediaRecorder (disposeLowpass r) = mediaRecorder r" "mediaRecorder (disposeCompressor r) = mediaRecorder r"
  "audioChunks (disposeSource r) = audioChunks r" "audioChunks (disposeAnalyser r) = audioChunks r"
  "audioChunks (disposeProcessor r) = audioChunks r" "audioChunks (disposeHighpass r) = audioChunks r"
  "audioChunks (disposeLowpass r) = audioChunks r" "audioChunks (disposeCompressor r) = audioChunks r"
  "updateCallback (disposeSource r) = updateCallback r" "updateCallback (disposeAnalyser r) = updateCallback r"
  "updateCallback (disposeProcessor r) = updateCallback r" "updateCallback (disposeHighpass r) = updateCallback r"
  "updateCallback (disposeLowpass r) = updateCallback r" "updateCallback (disposeCompressor r) = updateCallback r"
  "startTime (disposeSource r) = startTime r" "startTime (disposeAnalyser r) = startTime r"
  "startTime (disposeProcessor r) = startTime r" "startTime (disposeHighpass r) = startTime r"
  "startTime (disposeLowpass r) = startTime r" "startTime (disposeCompressor r) = startTime r"
  "pausedTime (disposeSource r) = pausedTime r" "pausedTime (disposeAnalyser r) = pausedTime r"
  "pausedTime (disposeProcessor r) = pausedTime r" "pausedTime (disposeHighpass r) = pausedTime r"
  "pausedTime (disposeLowpass r) = pausedTime r" "pausedTime (disposeCompressor r) = pausedTime r"
  "audioContext (disposeSource r) = audioContext r" "audioContext (disposeAnalyser r) = audioContext r"
  "audioContext (disposeProcessor r) = audioContext r" "audioContext (disposeHighpass r) = audioContext r"
  "audioContext (disposeLowpass r) = audioContext r" "audioContext (disposeCompressor r) = audioContext r"
  "dataArray (disposeSource r) = dataArray r" "dataArray (disposeAnalyser r) = dataArray r"
  "dataArray (disposeProcessor r) = dataArray r" "dataArray (disposeHighpass r) = dataArray r"
  "dataArray (disposeLowpass r) = dataArray r" "dataArray (disposeCompressor r) = dataArray r"
  by (simp_all add: disposeSource_def disposeAnalyser_def disposeProcessor_def
      disposeHighpass_def disposeLowpass_def disposeCompressor_def disconnect_def)

lemma disposeAudioNodes_frame [simp]:
  "emitted (disposeAudioNodes r) = emitted r"
  "intervalId (disposeAudioNodes r) = intervalId r"
  "timers (disposeAudioNodes r) = timers r"
  "mic_tracks (disposeAudioNodes r) = mic_tracks r"
  "stream (disposeAudioNodes r) = stream r"
  "mediaRecorder (disposeAudioNodes r) = mediaRecorder r"
  "audioChunks (disposeAudioNodes r) = audioChunks r"
  "updateCallback (disposeAudioNodes r) = updateCallback r"
  "startTime (disposeAudioNodes r) = startTime r"
  "pausedTime (disposeAudioNodes r) = pausedTime r"
  "audioContext (disposeAudioNodes r) = audioContext r"
  "dataArray (disposeAudioNodes r) = dataArray r"
  by (simp_all add: disposeAudioNodes_def)

text \<open>
  Each step of a capture sequence appends the stopwatch reading to the reported
  durations and re-establishes the invariant \<open>recInv\<close>.
\<close>

lemma pause_recording:
  assumes "recInv InRecording since acc t r" "t \<le> t'"
  shows "durations (pause t' b r) = durations r @ [(acc + (t' - since)) / 1000]"
    and "recInv InPaused since (acc + (t' - since)) t' (pause t' b r)"
  using assms
  by (simp_all add: recInv_def pause_def Let_def durations_def emitted_updateState)

lemma resume_paused:
  assumes "recInv InPaused since acc t r" "t \<le> t'"
  shows "durations (resume t' b r) = durations r @ [acc / 1000]"
    and "recInv InRecording t' acc t' (resume t' b r)"
  using assms
  by (simp_all add: recInv_def resume_def Let_def durations_def emitted_updateState)

lemma tick_recording:
  assumes "recInv InRecording since acc t r"
  shows "durations (tick t' b r) = durations r @ [(acc + (t' - since)) / 1000]"
    and "recInv InRecording since acc t' (tick t' b r)"
  using assms
  by (simp_all add: recInv_def tick_def durations_def emitted_updateState)

lemma tick_paused:
  assumes "recInv InPaused since acc t r" "t \<le> t'"
  shows "durations (tick t' b r) = durations r @ [acc / 1000]"
    and "recInv InPaused since acc t' (tick t' b r)"
  using assms
  by (simp_all add: recInv_def tick_def durations_def emitted_updateState)

lemma data_recording:
  assumes "recInv InRecording since acc t r"
  shows "durations (step (DataAvailable c) r) = durations r"
    and "recInv InRecording since acc t (step (DataAvailable c) r)"
  using assms
  by (simp_all add: recInv_def ondataavailable_def durations_def)

lemma stop_recording:
  assumes "recInv InRecording since acc t r"
  shows "durations (stop t' b f r) = durations r @ [(acc + (t' - since)) / 1000]"
  using assms
  by (simp add: recInv_def stop_def onstop_def ondataavailable_def Let_def durations_def
      stopTracks_def emitted_updateState)

lemma capture_durations:
  "captureBody ph t es \<Longrightarrow> recInv ph since acc t r \<Longrightarrow>
   durations (run es r) = durations r @ map (\<lambda>ms. ms / 1000) (stopwatch ph since acc es)"
proof (induction ph t es arbitrary: r since acc rule: captureBody.induct)
  case (1 ph t)
  then show ?case by simp
next
  case (2 t t' b es)
  then show ?case
    using pause_recording [of since acc t r t' b] by simp
next
  case (3 t t' b es)
  then show ?case
    using resume_paused [of since acc t r t' b] by simp
next
  case (4 t t' b f es)
  then show ?case
    using stop_recording [of since acc t r t' b f] by simp
next
  case (5 t t' b es)
  then show ?case
    using tick_recording [of since acc t r t' b] by simp
next
  case (6 t t' b es)
  then show ?case
    using tick_paused [of since acc t r t' b] by simp
next
  case (7 t c es)
  then show ?case
    using data_recording [of since acc t r c] by simp
qed simp_all

lemma reset_frame [simp]:
  "emitted (reset r) = emitted r"
  "updateCallback (reset r) = updateCallback r"
  "intervalId (reset r) = None"
  "mediaRecorder (reset r) = None"
  "audioChunks (reset r) = []"
  by (simp_all add: reset_def Let_def stopTracks_def split: option.splits)

lemma start_granted:
  assumes "granted env"
  shows "fst (start env now b r) = None"
    and "graph (snd (start env now b r)) =
          [(Source, Highpass), (Highpass, Lowpass), (Lowpass, Compressor),
           (Compressor, Analyser), (Compressor, Destination)]"
    and "highpassFilter (snd (start env now b r)) = Some \<lparr>filter_type = highpass, frequency = 85\<rparr>"
    and "lowpassFilter (snd (start env now b r)) = Some \<lparr>filter_type = lowpass, frequency = 10000\<rparr>"
    and "compressorNode (snd (start env now b r)) =
          Some \<lparr>threshold = - 24, knee = 30, ratio = 12, attack = 0.003, release = 0.25\<rparr>"
    and "analyserNode (snd (start env now b r)) = Some \<lparr>fftSize = 256\<rparr>"
    and "mediaRecorder (snd (start env now b r)) = Some rs_recording"
    and "startTime (snd (start env now b r)) = now"
    and "updateCallback (snd (start env now b r))"
    and "timerActive (snd (start env now b r))"
    and "durations (snd (start env now b r)) = durations r @ [0]"
proof -
  from assms obtain n where g: "getUserMedia env = Inr n" and m: "newMediaRecorder env = None"
    by (auto simp: granted_def split: sum.splits)
  let ?r6 = "(buildGraph ((reset (r\<lparr>updateCallback := True\<rparr>))\<lparr>stream := True, mic_tracks := replicate n True\<rparr>))
      \<lparr>mediaRecorder := Some rs_inactive, startTime := now, mediaRecorder := Some rs_recording,
       timers := snd (setInterval (timers (reset (r\<lparr>updateCallback := True\<rparr>)))),
       intervalId := Some (fst (setInterval (timers (reset (r\<lparr>updateCallback := True\<rparr>)))))\<rparr>"
  have bt: "timers (buildGraph x) = timers x" for x
    by (simp add: buildGraph_def connect_def Let_def)
  have s: "start env now b r = (None, updateState now b ?r6)"
    by (simp add: start_def g m Let_def split_beta bt)
  have cb: "updateCallback ?r6" by (simp add: buildGraph_def connect_def Let_def)
  show "fst (start env now b r) = None" by (simp add: s)
  show "graph (snd (start env now b r)) =
          [(Source, Highpass), (Highpass, Lowpass), (Lowpass, Compressor),
           (Compressor, Analyser), (Compressor, Destination)]"
    by (simp add: s buildGraph_def connect_def Let_def)
  show "highpassFilter (snd (start env now b r)) = Some \<lparr>filter_type = highpass, frequency = 85\<rparr>"
    by (simp add: s buildGraph_def connect_def Let_def)
  show "lowpassFilter (snd (start env now b r)) = Some \<lparr>filter_type = lowpass, frequency = 10000\<rparr>"
    by (simp add: s buildGraph_def connect_def Let_def)
  show "compressorNode (snd (start env now b r)) =
          Some \<lparr>threshold = - 24, knee = 30, ratio = 12, attack = 0.003, release = 0.25\<rparr>"
    by (simp add: s buildGraph_def connect_def Let_def)
  show "analyserNode (snd (start env now b r)) = Some \<lparr>fftSize = 256\<rparr>"
    by (simp add: s buildGraph_def connect_def Let_def)
  show "mediaRecorder (snd (start env now b r)) = Some rs_recording" by (simp add: s)
  show "startTime (snd (start env now b r)) = now" by (simp add: s)
  show "updateCallback (snd (start env now b r))" using cb by (simp add: s)
  show "timerActive (snd (start env now b r))"
    by (simp add: s) (simp add: timerActive_def setInterval_def)
  show "durations (snd (start env now b r)) = durations r @ [0]"
    using cb by (simp add: s durations_def emitted_updateState)
       (simp add: buildGraph_def connect_def Let_def)
qed

text \<open>
  Inside a capture sequence (a successful start, then pauses and resumes in alternation,
  ended by a stop while recording, with timer ticks and data chunks in between, in
  chronological order) the durations that the telemetry reports, one per reporting event,
  are the readings of the stopwatch that runs only in the Recording state, in seconds:
  0 at the start, the time recorded so far at every tick, the frozen value at a pause and
  at every tick while paused, the same value at the resume (the baseline is re-anchored),
  and the total recording time at the stop.
\<close>

lemma capture_sequence_durations:
  assumes "granted env" "0 < t0" "captureBody InRecording t0 es"
  shows "durations (run (Start env t0 b # es) r)
         = durations r @ map (\<lambda>ms. ms / 1000) (0 # stopwatch InRecording t0 0 es)"
proof -
  let ?r = "snd (start env t0 b r)"
  have "recInv InRecording t0 0 t0 ?r"
    using assms(2) by (simp add: recInv_def start_granted [OF assms(1)])
  from capture_durations [OF assms(3) this]
  show ?thesis by (simp add: start_granted [OF assms(1)])
qed

lemma capture_sequence_durations_example:
  "durations (run (Start micGranted 1000 [] #
        [Tick 1100 [], Pause 3000 [], Tick 3500 [], Resume 5000 [], DataAvailable [1, 2],
         Stop 6000 [] [3]]) newRecorder)
       = [0, 1 / 10, 2, 2, 2, 3]"
proof -
  let ?es = "[Tick 1100 [], Pause 3000 [], Tick 3500 [], Resume 5000 [], DataAvailable [1, 2],
         Stop 6000 [] [3]]"
  have g: "granted micGranted" by (simp add: granted_def micGranted_def)
  have p: "(0::real) < 1000" by simp
  have c: "captureBody InRecording 1000 ?es" by simp
  have d: "durations newRecorder = []" by (simp add: durations_def newRecorder_def)
  show ?thesis
    using capture_sequence_durations [OF g p c, of "[]" newRecorder]
    by (simp add: d)
qed

text \<open>
  C4 (the code departs from the claim): start at clock value 1000, pause at 2000, resume
  at 4000, stop at 5000.  This is a capture sequence with 2000 ms spent recording, and
  the telemetry of the four calls reports 0, 1, 1 and 2 seconds.  But the interval timer
  that \<open>start\<close> registered is still running after the stop, and its ticks report the time
  since the re-anchored baseline: 2.2 seconds at clock value 5200, which is more than one
  100 ms tick away from the 2 seconds recorded, and 6 seconds at clock value 9000, while
  reporting that the engine is not recording.
\<close>

theorem telemetry_duration_grows_after_stop:
  "captureBody InRecording 1000 [Pause 2000 [], Resume 4000 [], Stop 5000 [] [3]]
   \<and> stopwatch InRecording 1000 0 [Pause 2000 [], Resume 4000 [], Stop 5000 [] [3]]
       = [1000, 1000, 2000]
   \<and> durations (run pausedCapture newRecorder) = [0, 1, 1, 2]
   \<and> timerActive (run pausedCapture newRecorder)
   \<and> durations (run (pausedCapture @ [Tick 5200 [], Tick 9000 []]) newRecorder)
       = [0, 1, 1, 2, 22 / 10, 6]
   \<and> map isRecording (emitted (run (pausedCapture @ [Tick 5200 [], Tick 9000 []]) newRecorder))
       = [True, True, True, False, False, False]"
  by code_simp

text \<open>
  Disposal of the nodes: every node field is cleared, and the graph is empty afterwards
  when every connection left a node that was held in a field.
\<close>

lemma dispose_steps_nodes [simp]:
  "\<not> sourceNode (disposeSource r)"
  "analyserNode (disposeSource r) = analyserNode r"
  "processorNode (disposeSource r) = processorNode r"
  "highpassFilter (disposeSource r) = highpassFilter r"
  "lowpassFilter (disposeSource r) = lowpassFilter r"
  "compressorNode (disposeSource r) = compressorNode r"
  "sourceNode (disposeAnalyser r) = sourceNode r"
  "analyserNode (disposeAnalyser r) = None"
  "processorNode (disposeAnalyser r) = processorNode r"
  "highpassFilter (disposeAnalyser r) = highpassFilter r"
  "lowpassFilter (disposeAnalyser r) = lowpassFilter r"
  "compressorNode (disposeAnalyser r) = compressorNode r"
  "sourceNode (disposeProcessor r) = sourceNode r"
  "analyserNode (disposeProcessor r) = analyserNode r"
  "\<not> processorNode (disposeProcessor r)"
  "highpassFilter (disposeProcessor r) = highpassFilter r"
  "lowpassFilter (disposeProcessor r) = lowpassFilter r"
  "compressorNode (disposeProcessor r) = compressorNode r"
  "sourceNode (disposeHighpass r) = sourceNode r"
  "analyserNode (disposeHighpass r) = analyserNode r"
  "processorNode (disposeHighpass r) = processorNode r"
  "highpassFilter (disposeHighpass r) = None"
  "lowpassFilter (disposeHighpass r) = lowpassFilter r"
  "compressorNode (disposeHighpass r) = compressorNode r"
  "sourceNode (disposeLowpass r) = sourceNode r"
  "analyserNode (disposeLowpass r) = analyserNode r"
  "processorNode (disposeLowpass r) = processorNode r"
  "highpassFilter (disposeLowpass r) = highpassFilter r"
  "lowpassFilter (disposeLowpass r) = None"
  "compressorNode (disposeLowpass r) = compressorNode r"
  "sourceNode (disposeCompressor r) = sourceNode r"
  "analyserNode (disposeCompressor r) = analyserNode r"
  "processorNode (disposeCompressor r) = processorNode r"
  "highpassFilter (disposeCompressor r) = highpassFilter r"
  "lowpassFilter (disposeCompressor r) = lowpassFilter r"
  "compressorNode (disposeCompressor r) = None"
  by (simp_all add: disposeSource_def disposeAnalyser_def disposeProcessor_def
      disposeHighpass_def disposeLowpass_def disposeCompressor_def disconnect_def)

lemma dispose_steps_graph:
  "set (graph (disposeSource r)) = {e \<in> set (graph r). \<not> (fst e = Source \<and> nodeSet Source r)}"
  "set (graph (disposeAnalyser r)) = {e \<in> set (graph r). \<not> (fst e = Analyser \<and> nodeSet Analyser r)}"
  "set (graph (disposeProcessor r)) = {e \<in> set (graph r). \<not> (fst e = Processor \<and> nodeSet Processor r)}"
  "set (graph (disposeHighpass r)) = {e \<in> set (graph r). \<not> (fst e = Highpass \<and> nodeSet Highpass r)}"
  "set (graph (disposeLowpass r)) = {e \<in> set (graph r). \<not> (fst e = Lowpass \<and> nodeSet Lowpass r)}"
  "set (graph (disposeCompressor r)) = {e \<in> set (graph r). \<not> (fst e = Compressor \<and> nodeSet Compressor r)}"
  by (auto simp: disposeSource_def disposeAnalyser_def disposeProcessor_def
      disposeHighpass_def disposeLowpass_def disposeCompressor_def disconnect_def)

lemma disposeAudioNodes_clears:
  "\<not> sourceNode (disposeAudioNodes r)" "analyserNode (disposeAudioNodes r) = None"
  "\<not> processorNode (disposeAudioNodes r)" "highpassFilter (disposeAudioNodes r) = None"
  "lowpassFilter (disposeAudioNodes r) = None" "compressorNode (disposeAudioNodes r) = None"
  by (simp_all add: disposeAudioNodes_def)

lemma nodeSet_dispose_steps [simp]:
  "nodeSet a (disposeSource r) = (a \<noteq> Source \<and> nodeSet a r)"
  "nodeSet a (disposeAnalyser r) = (a \<noteq> Analyser \<and> nodeSet a r)"
  "nodeSet a (disposeProcessor r) = (a \<noteq> Processor \<and> nodeSet a r)"
  "nodeSet a (disposeHighpass r) = (a \<noteq> Highpass \<and> nodeSet a r)"
  "nodeSet a (disposeLowpass r) = (a \<noteq> Lowpass \<and> nodeSet a r)"
  "nodeSet a (disposeCompressor r) = (a \<noteq> Compressor \<and> nodeSet a r)"
  by (cases a; simp)+

lemma disposeAudioNodes_graph_mem:
  assumes "e \<in> set (graph (disposeAudioNodes r))"
  shows "e \<in> set (graph r) \<and> \<not> nodeSet (fst e) r"
  using assms by (cases "fst e") (simp_all add: disposeAudioNodes_def dispose_steps_graph)

lemma disposeAudioNodes_graph:
  assumes "graphTracked r"
  shows "graph (disposeAudioNodes r) = []"
proof (rule ccontr)
  assume "graph (disposeAudioNodes r) \<noteq> []"
  then obtain e where e: "e \<in> set (graph (disposeAudioNodes r))"
    by (cases "graph (disposeAudioNodes r)") auto
  from disposeAudioNodes_graph_mem [OF e] assms show False
    by (auto simp: graphTracked_def list_all_iff)
qed

lemma nodesReleased_dispose: "graphTracked r \<Longrightarrow> nodesReleased (disposeAudioNodes r)"
  by (simp add: nodesReleased_def disposeAudioNodes_clears disposeAudioNodes_graph)

lemma nodeSet_frame [simp]:
  "nodeSet a (updateState now b r) = nodeSet a r"
  "nodeSet a (r\<lparr>mediaRecorder := m\<rparr>) = nodeSet a r"
  "nodeSet a (r\<lparr>audioChunks := cs\<rparr>) = nodeSet a r"
  "nodeSet a (r\<lparr>mic_tracks := ts\<rparr>) = nodeSet a r"
  "nodeSet a (r\<lparr>stream := s\<rparr>) = nodeSet a r"
  "nodeSet a (r\<lparr>updateCallback := u\<rparr>) = nodeSet a r"
  by (cases a; simp)+

lemma graphTracked_frame [simp]:
  "graphTracked (updateState now b r) = graphTracked r"
  "graphTracked (r\<lparr>mediaRecorder := m\<rparr>) = graphTracked r"
  "graphTracked (r\<lparr>audioChunks := cs\<rparr>) = graphTracked r"
  "graphTracked (r\<lparr>mic_tracks := ts\<rparr>) = graphTracked r"
  "graphTracked (r\<lparr>stream := s\<rparr>) = graphTracked r"
  "graphTracked (r\<lparr>updateCallback := u\<rparr>) = graphTracked r"
  by (simp_all add: graphTracked_def)

lemma tracksStopped_stopTracks: "tracksStopped (stopTracks r)"
  by (simp add: tracksStopped_def stopTracks_def list_all_iff)

lemma stopTracks_frame [simp]:
  "intervalId (stopTracks r) = intervalId r" "timers (stopTracks r) = timers r"
  "stream (stopTracks r) = stream r" "emitted (stopTracks r) = emitted r"
  by (simp_all add: stopTracks_def)

text \<open>
  \<open>stop\<close> from the Recording or the Paused state: one more telemetry state, with the
  blob of all chunks including the final one; nodes and tracks are released; the timer is
  left as it was.  \<open>reset\<close>, in contrast, also cancels the timer.
\<close>

lemma stop_releases:
  assumes "mediaRecorder r = Some rs_recording \<or> mediaRecorder r = Some rs_paused"
    and "updateCallback r" and "graphTracked r" and "stream r"
  shows "nodesReleased (stop now b f r)"
    and "tracksStopped (stop now b f r)"
    and "length (emitted (stop now b f r)) = Suc (length (emitted r))"
    and "audioBlob (last (emitted (stop now b f r)))
           = (if audioChunks r = [] \<and> f = [] then None else Some (concat (audioChunks r) @ f))"
    and "\<not> isRecording (last (emitted (stop now b f r)))"
proof -
  let ?r1 = "ondataavailable f (r\<lparr>mediaRecorder := Some rs_inactive\<rparr>)"
  have s: "stop now b f r = disposeAudioNodes (stopTracks (updateState now b ?r1))"
    using assms(1,4) by (auto simp: stop_def onstop_def Let_def ondataavailable_def)
  have cb: "updateCallback ?r1" using assms(2) by (simp add: ondataavailable_def)
  have gt: "graphTracked (stopTracks (updateState now b ?r1))"
    using assms(3) by (simp add: stopTracks_def ondataavailable_def)
  show "nodesReleased (stop now b f r)"
    unfolding s by (rule nodesReleased_dispose [OF gt])
  show "tracksStopped (stop now b f r)"
    using tracksStopped_stopTracks [of "updateState now b ?r1"]
    by (simp add: s tracksStopped_def)
  show "length (emitted (stop now b f r)) = Suc (length (emitted r))"
    by (simp add: s stopTracks_def emitted_updateState [OF cb]) (simp add: ondataavailable_def)
  show "audioBlob (last (emitted (stop now b f r)))
           = (if audioChunks r = [] \<and> f = [] then None else Some (concat (audioChunks r) @ f))"
    by (simp add: s stopTracks_def emitted_updateState [OF cb]) (simp add: ondataavailable_def)
  show "\<not> isRecording (last (emitted (stop now b f r)))"
    by (simp add: s stopTracks_def emitted_updateState [OF cb]) (simp add: ondataavailable_def)
qed

lemma stop_keeps_timer:
  "intervalId (stop now b f r) = intervalId r"
  "timers (stop now b f r) = timers r"
  by (simp_all add: stop_def onstop_def ondataavailable_def stopTracks_def Let_def)

lemma stop_keeps_timerActive: "timerActive (stop now b f r) = timerActive r"
  by (simp add: timerActive_def stop_keeps_timer split: option.splits)

lemma reset_releases:
  assumes "graphTracked r" and "stream r \<or> tracksStopped r"
  shows "nodesReleased (reset r)" and "tracksStopped (reset r)" and "\<not> stream (reset r)"
    and "intervalId (reset r) = None" and "\<not> timerActive (reset r)"
    and "intervalId r = Some i \<Longrightarrow> i \<notin> set (active (timers (reset r)))"
proof -
  have g1: "graph (disposeAudioNodes ((stopTracks r)\<lparr>stream := False\<rparr>)) = []"
    by (rule disposeAudioNodes_graph) (simp add: stopTracks_def assms(1))
  have g2: "graph (disposeAudioNodes r) = []"
    by (rule disposeAudioNodes_graph [OF assms(1)])
  have t1: "list_all (\<lambda>live. \<not> live) (mic_tracks (stopTracks r))"
    using tracksStopped_stopTracks [of r] by (simp add: tracksStopped_def)
  show "nodesReleased (reset r)"
    by (cases "stream r"; cases "intervalId r")
       (simp_all add: reset_def Let_def nodesReleased_def disposeAudioNodes_clears g1 g2)
  show "tracksStopped (reset r)"
    using assms(2) t1
    by (cases "stream r"; cases "intervalId r")
       (simp_all add: reset_def Let_def tracksStopped_def stopTracks_def)
  show "\<not> stream (reset r)"
    by (cases "stream r"; cases "intervalId r") (simp_all add: reset_def Let_def stopTracks_def)
  show "intervalId (reset r) = None" by simp
  show "\<not> timerActive (reset r)" by (simp add: timerActive_def)
  show "i \<notin> set (active (timers (reset r)))" if "intervalId r = Some i"
    using that
    by (cases "stream r") (simp_all add: reset_def Let_def clearInterval_def stopTracks_def)
qed

lemma graphTracked_buildGraph: "graphTracked (buildGraph r)"
  by (simp add: graphTracked_def buildGraph_def connect_def Let_def)

lemma stream_buildGraph [simp]:
  "stream (buildGraph r) = stream r" "mic_tracks (buildGraph r) = mic_tracks r"
  by (simp_all add: buildGraph_def connect_def Let_def)

lemma nodesReleased_graphTracked: "nodesReleased r \<Longrightarrow> graphTracked r"
  by (simp add: nodesReleased_def graphTracked_def)

text \<open>
  The error exit of \<open>start\<close> (the \<open>catch\<close> block runs \<open>reset\<close>) releases everything:
  nodes, tracks and timer.
\<close>

lemma start_error_releases:
  assumes "\<not> granted env" and "graphTracked r" and "stream r \<or> tracksStopped r"
  shows "fst (start env now b r) \<noteq> None"
    and "nodesReleased (snd (start env now b r))"
    and "tracksStopped (snd (start env now b r))"
    and "intervalId (snd (start env now b r)) = None"
    and "\<not> timerActive (snd (start env now b r))"
    and "mediaRecorder (snd (start env now b r)) = None"
proof -
  let ?r0 = "reset (r\<lparr>updateCallback := True\<rparr>)"
  have a0: "graphTracked (r\<lparr>updateCallback := True\<rparr>)" using assms(2) by simp
  have b0: "stream (r\<lparr>updateCallback := True\<rparr>) \<or> tracksStopped (r\<lparr>updateCallback := True\<rparr>)"
    using assms(3) by (simp add: tracksStopped_def)
  have g0: "graphTracked ?r0"
    by (rule nodesReleased_graphTracked) (rule reset_releases(1) [OF a0 b0])
  have t0: "tracksStopped ?r0" by (rule reset_releases(2) [OF a0 b0])
  show "fst (start env now b r) \<noteq> None"
    using assms(1) by (auto simp: start_def granted_def Let_def split: sum.splits option.splits)
  have "\<exists>x. snd (start env now b r) = reset x \<and> graphTracked x \<and> (stream x \<or> tracksStopped x)"
  proof (cases "getUserMedia env")
    case (Inl msg)
    then have "snd (start env now b r) = reset ?r0" by (simp add: start_def Let_def)
    with g0 t0 show ?thesis by blast
  next
    case (Inr n)
    with assms(1) obtain msg where m: "newMediaRecorder env = Some msg"
      by (auto simp: granted_def)
    let ?x = "buildGraph (?r0\<lparr>stream := True, mic_tracks := replicate n True\<rparr>)"
    have "snd (start env now b r) = reset ?x" by (simp add: start_def Let_def Inr m)
    moreover have "graphTracked ?x" by (rule graphTracked_buildGraph)
    moreover have "stream ?x" by simp
    ultimately show ?thesis by blast
  qed
  then obtain x where x: "snd (start env now b r) = reset x" "graphTracked x"
    "stream x \<or> tracksStopped x" by blast
  show "nodesReleased (snd (start env now b r))"
    unfolding x(1) by (rule reset_releases(1) [OF x(2,3)])
  show "tracksStopped (snd (start env now b r))"
    unfolding x(1) by (rule reset_releases(2) [OF x(2,3)])
  show "intervalId (snd (start env now b r)) = None" by (simp add: x(1))
  show "\<not> timerActive (snd (start env now b r))"
    unfolding x(1) by (rule reset_releases(5) [OF x(2,3)])
  show "mediaRecorder (snd (start env now b r)) = None" by (simp add: x(1))
qed

text \<open>
  C3 (the code departs from the claim): start with the microphone granted, one data
  chunk, then \<open>stop\<close>.  The stop reports one final telemetry state that carries the
  complete blob, stops every track and disconnects and drops every node, but the
  interval timer is still registered and running: the next tick reports again, with a
  duration that keeps growing.  The error exit of \<open>start\<close> does cancel the timer.
\<close>

theorem stop_leaves_timer_running:
  "nodesReleased recordedThenStopped \<and> tracksStopped recordedThenStopped
   \<and> map audioBlob (emitted recordedThenStopped) = [None, Some [1, 2, 3]]
   \<and> durations recordedThenStopped = [0, 2]
   \<and> intervalId recordedThenStopped = Some 1 \<and> timerActive recordedThenStopped
   \<and> durations (tick 9000 [] recordedThenStopped) = [0, 2, 8]
   \<and> intervalId startDenied = None \<and> \<not> timerActive startDenied
   \<and> nodesReleased startDenied \<and> tracksStopped startDenied"
  by code_simp

text \<open>
  C8 (as stated, refuted): after a successful start the encoder sink is not fed from the
  analyser stage; the connection into the sink comes from the compressor.
\<close>

theorem encoder_sink_not_fed_from_analyser:
  "(Analyser, Destination) \<notin> set (graph startedRecorder)
   \<and> (Compressor, Destination) \<in> set (graph startedRecorder)"
  by code_simp

text \<open>
  C8 (amended): a successful \<open>start\<close> builds the chain source, high-pass filter (85 Hz),
  low-pass filter (10 kHz), dynamics compressor (threshold -24 dB, knee 30 dB, ratio 12,
  attack 3 ms, release 250 ms), level analyser (window 256), each stage connected to the
  next in this order; the encoder sink is fed from the compressor stage, next to the
  analyser, and the analyser has no outgoing connection.
\<close>

theorem start_processing_chain:
  assumes "granted env"
  shows "graph (snd (start env now b r)) =
           [(Source, Highpass), (Highpass, Lowpass), (Lowpass, Compressor),
            (Compressor, Analyser), (Compressor, Destination)]
         \<and> highpassFilter (snd (start env now b r)) = Some \<lparr>filter_type = highpass, frequency = 85\<rparr>
         \<and> lowpassFilter (snd (start env now b r)) = Some \<lparr>filter_type = lowpass, frequency = 10000\<rparr>
         \<and> compressorNode (snd (start env now b r)) =
             Some \<lparr>threshold = - 24, knee = 30, ratio = 12, attack = 3 / 1000, release = 250 / 1000\<rparr>
         \<and> analyserNode (snd (start env now b r)) = Some \<lparr>fftSize = 256\<rparr>"
  using start_granted [OF assms, of now b r] by simp

theorem start_processing_chain_witness:
  "granted micGranted
   \<and> graph (snd (start micGranted 1000 [] newRecorder)) =
           [(Source, Highpass), (Highpass, Lowpass), (Lowpass, Compressor),
            (Compressor, Analyser), (Compressor, Destination)]
   \<and> analyserNode (snd (start micGranted 1000 [] newRecorder)) = Some \<lparr>fftSize = 256\<rparr>"
proof -
  have g: "granted micGranted" by (simp add: granted_def micGranted_def)
  from start_processing_chain [OF g, of 1000 "[]" newRecorder] g show ?thesis by blast
qed

section \<open>Properties of the transcription queue\<close>

text \<open>How each store action changes the statuses observed for one conversation id.\<close>

lemma evictionEffect_store [simp]: "store (evictionEffect now w) = store w"
  by (simp add: evictionEffect_def)

lemma observe_evictionEffect [simp]: "observe c (evictionEffect now w) = observe c w"
  by (simp add: observe_def)

lemma observe_add:
  "observe c (w\<lparr>store := addToTranscriptionQueue item (store w)\<rparr>)
     = observe c w @ (if in_conversationId item = c then [Pending] else [])"
  by (simp add: observe_def addToTranscriptionQueue_def pendingItem_def)

lemma mergeItem_statusUpdate [simp]:
  "conversationId (mergeItem item (statusUpdate st err)) = conversationId item"
  "status (mergeItem item (statusUpdate st err)) = st"
  by (simp_all add: mergeItem_def statusUpdate_def)

lemma settleUpdate_statusUpdate:
  "\<exists>err. settleUpdate res = statusUpdate (outcomeStatus res) err"
  by (cases res) (auto simp: settleUpdate_def outcomeStatus_def)

lemma observe_update_list:
  "map status (filter (\<lambda>item. conversationId item = c)
      (map (\<lambda>item. if conversationId item = c' then mergeItem item (statusUpdate st err) else item) q))
   = (if c' = c then map (\<lambda>s. st) (map status (filter (\<lambda>item. conversationId item = c) q))
      else map status (filter (\<lambda>item. conversationId item = c) q))"
  by (induction q) auto

lemma observe_update:
  "observe c (w\<lparr>store := updateTranscriptionQueueItem c' (statusUpdate st err) (store w)\<rparr>)
     = (if c' = c then map (\<lambda>s. st) (observe c w) else observe c w)"
  by (simp add: observe_def updateTranscriptionQueueItem_def observe_update_list)

lemma observe_remove:
  "observe c (w\<lparr>store := removeFromTranscriptionQueue c' (store w), timeouts := ts\<rparr>)
     = (if c' = c then [] else observe c w)"
  "observe c (w\<lparr>store := removeFromTranscriptionQueue c' (store w)\<rparr>)
     = (if c' = c then [] else observe c w)"
  by (auto simp: observe_def removeFromTranscriptionQueue_def filter_empty_conv
      intro!: arg_cong [where f = "map status"] filter_cong)

lemma observe_step_subset:
  "e = Fire \<or> e = Dismiss c' \<Longrightarrow> set (observe c (qstep t e w)) \<subseteq> set (observe c w)"
  by (auto simp: observe_remove split: list.splits if_splits)

text \<open>
  Along a system trace the job of an id is at a stage \<open>L\<close>; every status observed from
  then on is at that stage or a later one.
\<close>

lemma status_le_refl [simp]: "status_le a a"
  by (simp add: status_le_def)

lemma status_le_trans: "status_le a b \<Longrightarrow> status_le b c \<Longrightarrow> status_le a c"
  by (auto simp: status_le_def)

lemma status_le_Pending [simp]: "status_le Pending x"
  by (cases x) (simp_all add: status_le_def)

lemma sorted_wrt_const: "\<forall>x\<in>set xs. x = a \<Longrightarrow> sorted_wrt status_le xs"
  by (induction xs) auto

lemma level_append:
  assumes "\<forall>x\<in>set xs. x = L'" and "status_le L L'"
    and "sorted_wrt status_le h \<and> (\<forall>x\<in>set h. status_le L' x)"
  shows "sorted_wrt status_le (xs @ h) \<and> (\<forall>x\<in>set (xs @ h). status_le L x)"
  using assms by (auto simp: sorted_wrt_append sorted_wrt_const intro: status_le_trans)

lemma history_levels:
  "sysOrder t used infl aw es \<Longrightarrow> stageOf c used infl aw L \<Longrightarrow>
   \<forall>x\<in>set (observe c w). x = L \<Longrightarrow> (c \<notin> used \<longrightarrow> observe c w = []) \<Longrightarrow>
   sorted_wrt status_le (history c es w) \<and> (\<forall>x\<in>set (history c es w). status_le L x)"
proof (induction t used infl aw es arbitrary: w L rule: sysOrder.induct)
  case (1 t used infl aw)
  then show ?case by simp
next
  case (2 t used infl t1 item es)
  let ?c' = "in_conversationId item"
  let ?w = "qstep t1 (Enqueue item) w"
  from "2.prems"(1) have so: "sysOrder t1 (insert ?c' used) infl (Some ?c') es" and fresh: "?c' \<notin> used"
    by simp_all
  have ob: "observe c ?w = observe c w @ (if ?c' = c then [Pending] else [])"
    by (simp add: observe_add)
  have st: "stageOf c (insert ?c' used) infl (Some ?c') L"
    using "2.prems"(2) fresh by (auto simp: stageOf_def split: if_splits)
  have o1: "\<forall>x\<in>set (observe c ?w). x = L"
    unfolding ob using "2.prems"(2,3,4) fresh by (auto simp: stageOf_def split: if_splits)
  have o2: "c \<notin> insert ?c' used \<longrightarrow> observe c ?w = []"
    unfolding ob using "2.prems"(4) by auto
  from "2.IH" [OF so st o1 o2] level_append [OF o1, of L "history c es ?w"]
  show ?case by simp
next
  case (3 t used infl c' t1 cid es)
  let ?w = "qstep t1 (Dispatch cid) w"
  from "3.prems"(1) have so: "sysOrder t1 used (insert c' infl) None es" and eq: "cid = c'"
    by auto
  let ?L' = "if c' = c then Processing else L"
  have ob: "observe c ?w = (if cid = c then map (\<lambda>s. Processing) (observe c w) else observe c w)"
    by (simp add: observe_update)
  have st: "stageOf c used (insert c' infl) None ?L'"
    using "3.prems"(2) by (auto simp: stageOf_def split: if_splits)
  have o1: "\<forall>x\<in>set (observe c ?w). x = ?L'"
    unfolding ob using "3.prems"(3) eq by auto
  have o2: "c \<notin> used \<longrightarrow> observe c ?w = []"
    unfolding ob using "3.prems"(4) by auto
  have le: "status_le L ?L'"
    using "3.prems"(2) by (auto simp: stageOf_def status_le_def split: if_splits)
  from "3.IH" [OF so st o1 o2] level_append [OF o1 le, of "history c es ?w"]
  show ?case by simp
next
  case (4 t used infl t1 cid res es)
  let ?w = "qstep t1 (Settled cid res) w"
  from "4.prems"(1) have so: "sysOrder t1 used (infl - {cid}) None es" and inf: "cid \<in> infl"
    by simp_all
  let ?L' = "if cid = c then outcomeStatus res else L"
  obtain err where su: "settleUpdate res = statusUpdate (outcomeStatus res) err"
    using settleUpdate_statusUpdate by blast
  have ob: "observe c ?w = (if cid = c then map (\<lambda>s. outcomeStatus res) (observe c w) else observe c w)"
    by (simp add: su observe_update)
  have r2: "statusRank (outcomeStatus res) = 2"
    by (cases res) (simp_all add: outcomeStatus_def)
  have st: "stageOf c used (infl - {cid}) None ?L'"
    using "4.prems"(2) inf r2 by (auto simp: stageOf_def split: if_splits)
  have o1: "\<forall>x\<in>set (observe c ?w). x = ?L'"
    unfolding ob using "4.prems"(3) by auto
  have o2: "c \<notin> used \<longrightarrow> observe c ?w = []"
    unfolding ob using "4.prems"(4) by auto
  have le: "status_le L ?L'"
    using "4.prems"(2) inf r2 by (auto simp: stageOf_def status_le_def split: if_splits)
  from "4.IH" [OF so st o1 o2] level_append [OF o1 le, of "history c es ?w"]
  show ?case by simp
next
  case (5 t used infl t1 cid es)
  let ?w = "qstep t1 (Dismiss cid) w"
  from "5.prems"(1) have so: "sysOrder t1 used infl None es" by simp
  have sub: "set (observe c ?w) \<subseteq> set (observe c w)"
    by (rule observe_step_subset) simp
  have o1: "\<forall>x\<in>set (observe c ?w). x = L" using "5.prems"(3) sub by blast
  have o2: "c \<notin> used \<longrightarrow> observe c ?w = []" using "5.prems"(4) sub by auto
  from "5.IH" [OF so "5.prems"(2) o1 o2] level_append [OF o1, of L "history c es ?w"]
  show ?case by simp
next
  case (6 t used infl t1 es)
  let ?w = "qstep t1 Fire w"
  from "6.prems"(1) have so: "sysOrder t1 used infl None es" by simp
  have sub: "set (observe c ?w) \<subseteq> set (observe c w)"
    by (rule observe_step_subset [where c' = 0]) simp
  have o1: "\<forall>x\<in>set (observe c ?w). x = L" using "6.prems"(3) sub by blast
  have o2: "c \<notin> used \<longrightarrow> observe c ?w = []" using "6.prems"(4) sub by auto
  from "6.IH" [OF so "6.prems"(2) o1 o2] level_append [OF o1, of L "history c es ?w"]
  show ?case by simp
qed simp_all


lemma remdups_adj_strict:
  "sorted_wrt status_le h \<Longrightarrow> sorted_wrt (\<lambda>a b. statusRank a < statusRank b) (remdups_adj h)"
proof (induction h rule: remdups_adj.induct)
  case (3 x y xs)
  then show ?case by (auto simp: status_le_def)
qed simp_all

lemma strict_rank_subseq:
  assumes "sorted_wrt (\<lambda>a b. statusRank a < statusRank b) xs"
  shows "subseq xs [Pending, Processing, Completed] \<or> subseq xs [Pending, Processing, Failed]"
proof (cases xs)
  case Nil
  then show ?thesis by simp
next
  case (Cons a ys)
  note xs = Cons
  show ?thesis
  proof (cases ys)
    case Nil
    with xs show ?thesis by (cases a) simp_all
  next
    case (Cons b zs)
    note ys = Cons
    show ?thesis
    proof (cases zs)
      case Nil
      with xs ys assms show ?thesis by (cases a; cases b) simp_all
    next
      case (Cons c us)
      note zs = Cons
      show ?thesis
      proof (cases us)
        case Nil
        with xs ys zs assms show ?thesis by (cases a; cases b; cases c) simp_all
      next
        case (Cons d vs)
        with xs ys zs assms have "statusRank a < statusRank b" "statusRank b < statusRank c"
          "statusRank c < statusRank d" by simp_all
        moreover have "statusRank d \<le> 2" by (cases d) simp_all
        ultimately have False by linarith
        then show ?thesis ..
      qed
    qed
  qed
qed

text \<open>
  C5: along every trace of the system's operations (an enqueue of a fresh conversation
  id sets Pending, the dispatch that follows sets Processing, the outcome of the request
  sets Completed or Failed, with dismissals and evictions in between), the statuses
  that the job of any conversation id shows, one reading per queue state, never go back
  to an earlier stage, and once repetitions are dropped they form a subsequence of
  Pending, Processing, Completed or of Pending, Processing, Failed.
\<close>

theorem job_status_moves_forward:
  assumes "systemTrace es"
  shows "sorted_wrt status_le (history c es (initialWorld today))
         \<and> (subseq (remdups_adj (history c es (initialWorld today))) [Pending, Processing, Completed]
            \<or> subseq (remdups_adj (history c es (initialWorld today))) [Pending, Processing, Failed])"
proof -
  have st: "stageOf c {} {} None Pending" by (simp add: stageOf_def)
  have ob: "observe c (initialWorld today) = []"
    by (simp add: observe_def initialWorld_def initialSessionState_def)
  from assms have so: "sysOrder 0 {} {} None es" by (simp add: systemTrace_def)
  have "sorted_wrt status_le (history c es (initialWorld today))"
    using history_levels [OF so st, of "initialWorld today"] by (simp add: ob)
  with strict_rank_subseq [OF remdups_adj_strict] show ?thesis by blast
qed

theorem job_status_moves_forward_witness:
  "systemTrace [(1000, Enqueue job7), (1000, Dispatch 7), (1500, Enqueue job9), (1500, Dispatch 9),
      (4000, Settled 7 ResponseOk), (6000, Settled 9 (Rejected None)), (9000, Fire)]
   \<and> history 7 [(1000, Enqueue job7), (1000, Dispatch 7), (1500, Enqueue job9), (1500, Dispatch 9),
      (4000, Settled 7 ResponseOk), (6000, Settled 9 (Rejected None)), (9000, Fire)]
        (initialWorld ''2024-01-01'')
      = [Pending, Processing, Processing, Processing, Completed, Completed]
   \<and> subseq (remdups_adj (history 7 [(1000, Enqueue job7), (1000, Dispatch 7), (1500, Enqueue job9),
      (1500, Dispatch 9), (4000, Settled 7 ResponseOk), (6000, Settled 9 (Rejected None)), (9000, Fire)]
        (initialWorld ''2024-01-01''))) [Pending, Processing, Completed]"
proof -
  let ?es = "[(1000, Enqueue job7), (1000, Dispatch 7), (1500, Enqueue job9), (1500, Dispatch 9),
      (4000, Settled 7 ResponseOk), (6000, Settled 9 (Rejected None)), (9000, Fire)]"
  have tr: "systemTrace ?es" by (simp add: systemTrace_def job7_def job9_def)
  have h: "history 7 ?es (initialWorld ''2024-01-01'')
      = [Pending, Processing, Processing, Processing, Completed, Completed]"
    by code_simp
  have s: "subseq (remdups_adj [Pending, Processing, Processing, Processing, Completed, Completed])
             [Pending, Processing, Completed]"
    using job_status_moves_forward [OF tr, of 7 "''2024-01-01''"] unfolding h by simp
  show ?thesis unfolding h using tr s by blast
qed

lemma observe_timeouts [simp]: "observe c (w\<lparr>timeouts := ts\<rparr>) = observe c w"
  by (simp add: observe_def)

lemma timersFor_store [simp]: "timersFor c (w\<lparr>store := s\<rparr>) = timersFor c w"
  by (simp add: timersFor_def)

lemma timersFor_effect_list:
  "map fst (filter (\<lambda>(due, cid). cid = c)
      (map (\<lambda>item. (x, conversationId item)) (filter (\<lambda>item. status item = Completed) q)))
   = map (\<lambda>s. x) (filter (\<lambda>s. s = Completed)
       (map status (filter (\<lambda>item. conversationId item = c) q)))"
  by (induction q) auto

lemma timersFor_effect:
  "timersFor c (evictionEffect t w)
     = timersFor c w @ map (\<lambda>s. t + 5000) (filter (\<lambda>s. s = Completed) (observe c w))"
  by (simp add: timersFor_def evictionEffect_def observe_def timersFor_effect_list)

lemma dismissible_observe:
  "dismissible c (store w) = (Completed \<in> set (observe c w) \<or> Failed \<in> set (observe c w))"
  by (fastforce simp: dismissible_def observe_def list_ex_iff image_iff)

text \<open>Steps that do not concern the id.\<close>

lemma step_keep:
  assumes "\<not> about c e" and "e \<noteq> Dismiss c" and "list_all (\<lambda>due. t < due) (timersFor c w)"
  shows "observe c (qstep t e w) = observe c w"
proof (cases e)
  case (Enqueue item)
  with assms show ?thesis by (simp add: observe_add)
next
  case (Dispatch cid)
  with assms show ?thesis by (simp add: observe_update)
next
  case (Settled cid res)
  obtain err where "settleUpdate res = statusUpdate (outcomeStatus res) err"
    using settleUpdate_statusUpdate by blast
  with Settled assms show ?thesis by (simp add: observe_update)
next
  case (Dismiss cid)
  with assms show ?thesis by (simp add: observe_remove)
next
  case Fire
  show ?thesis
  proof (cases "timeouts w")
    case Nil
    with Fire show ?thesis by simp
  next
    case (Cons p rest)
    obtain d i where p: "p = (d, i)" by (cases p)
    with Cons assms(3) have "d \<le> t \<Longrightarrow> i \<noteq> c" by (auto simp: timersFor_def)
    with Fire Cons p show ?thesis by (auto simp: observe_remove)
  qed
qed

lemma step_early_dismiss:
  assumes "Completed \<notin> set (observe c w)" and "Failed \<notin> set (observe c w)"
  shows "qstep t (Dismiss c) w = w"
  using assms by (simp add: dismissible_observe)

lemma step_shrinks:
  assumes "\<not> about c e"
  shows "observe c (qstep t e w) = observe c w \<or> observe c (qstep t e w) = []"
proof (cases e)
  case (Enqueue item)
  with assms show ?thesis by (simp add: observe_add)
next
  case (Dispatch cid)
  with assms show ?thesis by (simp add: observe_update)
next
  case (Settled cid res)
  obtain err where "settleUpdate res = statusUpdate (outcomeStatus res) err"
    using settleUpdate_statusUpdate by blast
  with Settled assms show ?thesis by (simp add: observe_update)
next
  case (Dismiss cid)
  then show ?thesis by (simp add: observe_remove)
next
  case Fire
  then show ?thesis by (auto simp: observe_remove split: list.splits)
qed

text \<open>The timeouts of an id after a step: what was pending, possibly without the one
  that fired, and one new timeout per completed job of the id.\<close>

lemma step_timers:
  "\<exists>old. set old \<subseteq> set (timersFor c w)
     \<and> (observe c (qstep t e w) = [] \<or> old = timersFor c w)
     \<and> (timersFor c (qstep t e w) = old
         \<or> timersFor c (qstep t e w)
             = old @ map (\<lambda>s. t + 5000) (filter (\<lambda>s. s = Completed) (observe c (qstep t e w))))"
proof (cases e)
  case (Enqueue item)
  then show ?thesis by (auto simp: timersFor_effect)
next
  case (Dispatch cid)
  then show ?thesis by (auto simp: timersFor_effect)
next
  case (Settled cid res)
  then show ?thesis by (auto simp: timersFor_effect)
next
  case (Dismiss cid)
  then show ?thesis by (auto simp: timersFor_effect)
next
  case Fire
  show ?thesis
  proof (cases "timeouts w")
    case Nil
    with Fire show ?thesis by auto
  next
    case (Cons p rest)
    obtain d i where p: "p = (d, i)" by (cases p)
    show ?thesis
    proof (cases "d \<le> t")
      case False
      with Fire Cons p show ?thesis by auto
    next
      case True
      let ?w' = "w\<lparr>store := removeFromTranscriptionQueue i (store w), timeouts := rest\<rparr>"
      have q: "qstep t e w = evictionEffect t ?w'" using Fire Cons p True by simp
      have t': "timersFor c ?w' = map fst (filter (\<lambda>(due, cid). cid = c) rest)"
        by (simp add: timersFor_def)
      have sub: "set (timersFor c ?w') \<subseteq> set (timersFor c w)"
        using Cons p by (auto simp: timersFor_def)
      have keep: "observe c (qstep t e w) = [] \<or> timersFor c ?w' = timersFor c w"
        using Cons p by (cases "i = c") (auto simp: q observe_remove timersFor_def)
      have "timersFor c (qstep t e w)
              = timersFor c ?w' @ map (\<lambda>s. t + 5000)
                  (filter (\<lambda>s. s = Completed) (observe c (qstep t e w)))"
        by (simp add: q timersFor_effect)
      with sub keep show ?thesis by blast
    qed
  qed
qed

text \<open>
  After the request has settled, no further event of the trace is about the id.  Such
  steps preserve the invariants \<open>okInv\<close> and \<open>failInv\<close>; they keep the job in the queue
  unless it is dismissed or, for a completed job, a timeout that is due removes it.
\<close>

lemma ok_step:
  assumes "okInv T c w" and "T \<le> t" and "\<not> about c e"
  shows "okInv T c (qstep t e w)"
proof -
  obtain old where old: "set old \<subseteq> set (timersFor c w)"
    "observe c (qstep t e w) = [] \<or> old = timersFor c w"
    "timersFor c (qstep t e w) = old
       \<or> timersFor c (qstep t e w)
           = old @ map (\<lambda>s. t + 5000) (filter (\<lambda>s. s = Completed) (observe c (qstep t e w)))"
    using step_timers [of c w t e] by blast
  from step_shrinks [OF assms(3), of t w]
  have sh: "observe c (qstep t e w) = observe c w \<or> observe c (qstep t e w) = []" .
  have 1: "list_all (\<lambda>x. x = Completed) (observe c (qstep t e w))"
    using sh assms(1) by (auto simp: okInv_def)
  have o: "\<And>x. x \<in> set old \<Longrightarrow> T + 5000 \<le> x"
    using old(1) assms(1) by (auto simp: okInv_def list_all_iff)
  have 2: "list_all (\<lambda>due. T + 5000 \<le> due) (timersFor c (qstep t e w))"
    using old(3) o assms(2) by (auto simp: list_all_iff)
  have 3: "observe c (qstep t e w) = [] \<or> T + 5000 \<in> set (timersFor c (qstep t e w))"
    using old(2,3) sh assms(1) by (auto simp: okInv_def)
  from 1 2 3 show ?thesis by (simp add: okInv_def)
qed

lemma ok_present_step:
  assumes "okInv T c w" and "t < T + 5000" and "\<not> about c e" and "e \<noteq> Dismiss c"
  shows "observe c (qstep t e w) = observe c w"
proof (rule step_keep [OF assms(3,4)])
  show "list_all (\<lambda>due. t < due) (timersFor c w)"
    using assms(1,2) by (auto simp: okInv_def list_all_iff)
qed

lemma absent_step:
  assumes "observe c w = []" and "\<not> about c e"
  shows "observe c (qstep t e w) = []"
  using step_shrinks [OF assms(2), of t w] assms(1) by auto

lemma fail_step:
  assumes "failInv c w" and "\<not> about c e"
  shows "failInv c (qstep t e w)"
proof -
  obtain old where old: "set old \<subseteq> set (timersFor c w)"
    "timersFor c (qstep t e w) = old
       \<or> timersFor c (qstep t e w)
           = old @ map (\<lambda>s. t + 5000) (filter (\<lambda>s. s = Completed) (observe c (qstep t e w)))"
    using step_timers [of c w t e] by blast
  from step_shrinks [OF assms(2), of t w]
  have sh: "observe c (qstep t e w) = observe c w \<or> observe c (qstep t e w) = []" .
  have 1: "list_all (\<lambda>x. x = Failed) (observe c (qstep t e w))"
    using sh assms(1) by (auto simp: failInv_def)
  then have "filter (\<lambda>s. s = Completed) (observe c (qstep t e w)) = []"
    by (auto simp: list_all_iff filter_empty_conv)
  with old assms(1) have "timersFor c (qstep t e w) = []" by (auto simp: failInv_def)
  with 1 show ?thesis by (simp add: failInv_def)
qed

lemma fail_present_step:
  assumes "failInv c w" and "\<not> about c e" and "e \<noteq> Dismiss c"
  shows "observe c (qstep t e w) = observe c w"
  using assms(1) by (intro step_keep [OF assms(2,3)]) (simp add: failInv_def)

lemma dismiss_removes:
  assumes "list_all (\<lambda>x. x = Completed \<or> x = Failed) (observe c w)"
  shows "observe c (qstep t (Dismiss c) w) = []"
proof (cases "observe c w")
  case Nil
  then show ?thesis by (simp add: dismissible_observe)
next
  case (Cons x xs)
  with assms have "dismissible c (store w)" by (auto simp: dismissible_observe)
  then show ?thesis by (simp add: observe_remove)
qed

lemma qrun_append: "qrun (xs @ ys) w = qrun ys (qrun xs w)"
  by (induction xs arbitrary: w) auto

lemma prompt_append: "prompt slack (xs @ ys) w \<Longrightarrow> prompt slack ys (qrun xs w)"
  by (induction xs arbitrary: w) auto

lemma lastTime_Cons: "lastTime t ((t1, e) # es) = lastTime t1 es"
  by (simp add: lastTime_def)

lemma chrono_lastTime: "chrono t es \<Longrightarrow> t \<le> lastTime t es"
proof (induction es arbitrary: t)
  case Nil
  then show ?case by (simp add: lastTime_def)
next
  case (Cons x es)
  obtain t1 e where x: "x = (t1, e)" by (cases x)
  with Cons.prems have "t \<le> t1" "chrono t1 es" by simp_all
  with Cons.IH [of t1] x show ?case by (simp add: lastTime_Cons)
qed

lemma ok_run:
  "okInv T c w \<Longrightarrow> chrono t es \<Longrightarrow> T \<le> t \<Longrightarrow> others c es \<Longrightarrow> okInv T c (qrun es w)"
proof (induction es arbitrary: w t)
  case Nil
  then show ?case by simp
next
  case (Cons x es)
  obtain t1 e where x: "x = (t1, e)" by (cases x)
  from Cons.prems x have a: "t \<le> t1" "chrono t1 es" "\<not> about c e" "others c es"
    by (simp_all add: others_def)
  with Cons.prems have "okInv T c (qstep t1 e w)" by (intro ok_step) simp_all
  from Cons.IH [OF this a(2) _ a(4)] a(1) Cons.prems(3) x show ?case by simp
qed

lemma ok_present_run:
  "okInv T c w \<Longrightarrow> chrono t es \<Longrightarrow> T \<le> t \<Longrightarrow> others c es \<Longrightarrow> noDismiss c es \<Longrightarrow>
   lastTime t es < T + 5000 \<Longrightarrow> observe c (qrun es w) = observe c w"
proof (induction es arbitrary: w t)
  case Nil
  then show ?case by simp
next
  case (Cons x es)
  obtain t1 e where x: "x = (t1, e)" by (cases x)
  from Cons.prems x have a: "t \<le> t1" "chrono t1 es" "\<not> about c e" "others c es"
    "e \<noteq> Dismiss c" "noDismiss c es" "lastTime t1 es < T + 5000"
    by (simp_all add: others_def noDismiss_def lastTime_Cons)
  from chrono_lastTime [OF a(2)] a(7) have lt: "t1 < T + 5000" by simp
  from a(1) Cons.prems(3) have ge: "T \<le> t1" by simp
  have ok: "okInv T c (qstep t1 e w)" by (rule ok_step [OF Cons.prems(1) ge a(3)])
  have keep: "observe c (qstep t1 e w) = observe c w"
    by (rule ok_present_step [OF Cons.prems(1) lt a(3) a(5)])
  from Cons.IH [OF ok a(2) ge a(4) a(6) a(7)] keep x show ?case by simp
qed

lemma absent_run: "observe c w = [] \<Longrightarrow> others c es \<Longrightarrow> observe c (qrun es w) = []"
proof (induction es arbitrary: w)
  case Nil
  then show ?case by simp
next
  case (Cons x es)
  obtain t1 e where x: "x = (t1, e)" by (cases x)
  from Cons.prems x have a: "\<not> about c e" "others c es" by (simp_all add: others_def)
  from Cons.IH [OF absent_step [OF Cons.prems(1) a(1)] a(2)] x show ?case by simp
qed

lemma timersFor_mem: "d \<in> set (timersFor c w) \<Longrightarrow> (d, c) \<in> set (timeouts w)"
  by (auto simp: timersFor_def)

lemma ok_absent_run:
  "okInv T c w \<Longrightarrow> chrono t es \<Longrightarrow> T \<le> t \<Longrightarrow> others c es \<Longrightarrow> prompt slack es w \<Longrightarrow>
   es \<noteq> [] \<Longrightarrow> T + 5000 + slack < lastTime t es \<Longrightarrow> observe c (qrun es w) = []"
proof (induction es arbitrary: w t)
  case Nil
  then show ?case by simp
next
  case (Cons x es)
  obtain t1 e where x: "x = (t1, e)" by (cases x)
  from Cons.prems x have a: "t \<le> t1" "chrono t1 es" "\<not> about c e" "others c es"
    "list_all (\<lambda>(due, cid). t1 \<le> due + slack) (timeouts w)" "prompt slack es (qstep t1 e w)"
    "T + 5000 + slack < lastTime t1 es"
    by (simp_all add: others_def lastTime_Cons)
  from a(1) Cons.prems(3) have ge: "T \<le> t1" by simp
  have ok: "okInv T c (qstep t1 e w)" by (rule ok_step [OF Cons.prems(1) ge a(3)])
  show ?case
  proof (cases "es = []")
    case True
    with a(7) have late: "T + 5000 + slack < t1" by (simp add: lastTime_def)
    have "observe c w = []"
    proof (rule ccontr)
      assume "observe c w \<noteq> []"
      with Cons.prems(1) have "T + 5000 \<in> set (timersFor c w)" by (simp add: okInv_def)
      then have "(T + 5000, c) \<in> set (timeouts w)" by (rule timersFor_mem)
      with a(5) have "t1 \<le> T + 5000 + slack" by (auto simp: list_all_iff)
      with late show False by simp
    qed
    from absent_step [OF this a(3)] True x show ?thesis by simp
  next
    case False
    from Cons.IH [OF ok a(2) ge a(4) a(6) False a(7)] x show ?thesis by simp
  qed
qed

lemma fail_run: "failInv c w \<Longrightarrow> others c es \<Longrightarrow> failInv c (qrun es w)"
proof (induction es arbitrary: w)
  case Nil
  then show ?case by simp
next
  case (Cons x es)
  obtain t1 e where x: "x = (t1, e)" by (cases x)
  from Cons.prems x have a: "\<not> about c e" "others c es" by (simp_all add: others_def)
  from Cons.IH [OF fail_step [OF Cons.prems(1) a(1)] a(2)] x show ?case by simp
qed

lemma fail_present_run:
  "failInv c w \<Longrightarrow> others c es \<Longrightarrow> noDismiss c es \<Longrightarrow> observe c (qrun es w) = observe c w"
proof (induction es arbitrary: w)
  case Nil
  then show ?case by simp
next
  case (Cons x es)
  obtain t1 e where x: "x = (t1, e)" by (cases x)
  from Cons.prems x have a: "\<not> about c e" "others c es" "e \<noteq> Dismiss c" "noDismiss c es"
    by (simp_all add: others_def noDismiss_def)
  from Cons.IH [OF fail_step [OF Cons.prems(1) a(1)] a(2) a(4)]
    fail_present_step [OF Cons.prems(1) a(1) a(3)] x
  show ?case by simp
qed

lemma others_append: "others c (xs @ ys) = (others c xs \<and> others c ys)"
  by (simp add: others_def)

lemma chrono_prefix: "chrono t (xs @ ys) \<Longrightarrow> chrono t xs"
  by (induction xs arbitrary: t) auto

text \<open>
  Before the request settles, the job goes from absent to Pending to Processing and no
  timeout carries its id.
\<close>

lemma done_events:
  "sysOrder t used infl aw es \<Longrightarrow> c \<in> used \<Longrightarrow> c \<notin> infl \<Longrightarrow> aw \<noteq> Some c \<Longrightarrow>
   chrono t es \<and> others c es"
proof (induction t used infl aw es rule: sysOrder.induct)
  case (1 t used infl aw)
  then show ?case by (simp add: others_def)
next
  case (2 t used infl t1 item es)
  then show ?case by (auto simp: others_def)
next
  case (3 t used infl c' t1 cid es)
  then show ?case by (auto simp: others_def)
next
  case (4 t used infl t1 cid res es)
  then show ?case by (auto simp: others_def)
next
  case (5 t used infl t1 cid es)
  then show ?case by (auto simp: others_def)
next
  case (6 t used infl t1 es)
  then show ?case by (auto simp: others_def)
qed simp_all

lemma pre_timers_step:
  assumes "timersFor c w = []" and "Completed \<notin> set (observe c (qstep t e w))"
  shows "timersFor c (qstep t e w) = []"
proof -
  obtain old where old: "set old \<subseteq> set (timersFor c w)"
    "timersFor c (qstep t e w) = old
       \<or> timersFor c (qstep t e w)
           = old @ map (\<lambda>s. t + 5000) (filter (\<lambda>s. s = Completed) (observe c (qstep t e w)))"
    using step_timers [of c w t e] by blast
  from assms(2) have "filter (\<lambda>s. s = Completed) (observe c (qstep t e w)) = []"
    by (auto simp: filter_empty_conv)
  with old assms(1) show ?thesis by auto
qed

lemma pre_other_step:
  assumes "preInv c used infl aw w" and "\<not> about c e"
  shows "observe c (qstep t e w) = observe c w" and "timersFor c (qstep t e w) = []"
proof -
  from assms(1) have nt: "timersFor c w = []"
    and nc: "Completed \<notin> set (observe c w)" "Failed \<notin> set (observe c w)"
    by (auto simp: preInv_def split: if_splits)
  show k: "observe c (qstep t e w) = observe c w"
  proof (cases "e = Dismiss c")
    case True
    with step_early_dismiss [OF nc] show ?thesis by simp
  next
    case False
    from nt show ?thesis by (intro step_keep [OF assms(2) False]) simp
  qed
  show "timersFor c (qstep t e w) = []"
    by (rule pre_timers_step [OF nt]) (simp add: k nc)
qed

lemma pre_run:
  "sysOrder t used infl aw (pre @ (T, Settled c res) # post) \<Longrightarrow> preInv c used infl aw w \<Longrightarrow>
   observe c (qrun pre w) = [Processing] \<and> timersFor c (qrun pre w) = []
   \<and> chrono T post \<and> others c post"
proof (induction pre arbitrary: t used infl aw w)
  case Nil
  from Nil.prems(1) have aw: "aw = None" by (cases aw) simp_all
  with Nil.prems(1) have c: "c \<in> infl" and so: "sysOrder T used (infl - {c}) None post"
    by simp_all
  from Nil.prems(2) c aw have "c \<in> used" "observe c w = [Processing]" "timersFor c w = []"
    by (auto simp: preInv_def split: if_splits)
  with done_events [OF so, of c] show ?case by simp
next
  case (Cons x pre)
  obtain t1 e where x: "x = (t1, e)" by (cases x)
  let ?rest = "pre @ (T, Settled c res) # post"
  let ?w = "qstep t1 e w"
  from Cons.prems(1) x have so: "sysOrder t used infl aw ((t1, e) # ?rest)" by simp
  have "\<exists>used' infl' aw'. sysOrder t1 used' infl' aw' ?rest \<and> preInv c used' infl' aw' ?w"
  proof (cases e)
    case (Enqueue item)
    let ?c' = "in_conversationId item"
    from so Enqueue have aw: "aw = None" by (cases aw) simp_all
    with so Enqueue have fresh: "?c' \<notin> used"
      and so': "sysOrder t1 (insert ?c' used) infl (Some ?c') ?rest" by simp_all
    have ob: "observe c ?w = observe c w @ (if ?c' = c then [Pending] else [])"
      using Enqueue by (simp add: observe_add)
    from Cons.prems(2) have nc: "Completed \<notin> set (observe c w)" and nt: "timersFor c w = []"
      by (auto simp: preInv_def split: if_splits)
    have ti: "timersFor c ?w = []"
      by (rule pre_timers_step [OF nt]) (simp add: ob nc)
    have "preInv c (insert ?c' used) infl (Some ?c') ?w"
      using Cons.prems(2) fresh aw ti
      by (auto simp: preInv_def ob split: if_splits)
    with so' show ?thesis by blast
  next
    case (Dispatch cid)
    from so Dispatch obtain c' where aw: "aw = Some c'" by (cases aw) simp_all
    with so Dispatch have eq: "cid = c'" and so': "sysOrder t1 used (insert c' infl) None ?rest"
      by auto
    have ob: "observe c ?w = (if cid = c then map (\<lambda>s. Processing) (observe c w) else observe c w)"
      using Dispatch by (simp add: observe_update)
    from Cons.prems(2) have nc: "Completed \<notin> set (observe c w)" and nt: "timersFor c w = []"
      by (auto simp: preInv_def split: if_splits)
    have ti: "timersFor c ?w = []"
      by (rule pre_timers_step [OF nt]) (use nc in \<open>auto simp: ob\<close>)
    have "preInv c used (insert c' infl) None ?w"
      using Cons.prems(2) aw eq ti
      by (auto simp: preInv_def ob split: if_splits)
    with so' show ?thesis by blast
  next
    case (Settled cid res1)
    from so Settled have aw: "aw = None" by (cases aw) simp_all
    with so Settled have inf: "cid \<in> infl" and so': "sysOrder t1 used (infl - {cid}) None ?rest"
      by simp_all
    have ne: "cid \<noteq> c"
    proof
      assume "cid = c"
      with so' inf Cons.prems(2) have "others c ?rest"
        using done_events [of t1 used "infl - {c}" None ?rest c]
        by (auto simp: preInv_def)
      then show False by (simp add: others_def)
    qed
    with Settled have na: "\<not> about c e" by simp
    have "preInv c used (infl - {cid}) None ?w"
      using Cons.prems(2) aw ne pre_other_step [OF Cons.prems(2) na, of t1]
      by (auto simp: preInv_def split: if_splits)
    with so' show ?thesis by blast
  next
    case (Dismiss cid)
    from so Dismiss have aw: "aw = None" by (cases aw) simp_all
    with so Dismiss have so': "sysOrder t1 used infl None ?rest" by simp
    from Dismiss have na: "\<not> about c e" by simp
    have "preInv c used infl None ?w"
      using Cons.prems(2) aw pre_other_step [OF Cons.prems(2) na, of t1]
      by (auto simp: preInv_def split: if_splits)
    with so' show ?thesis by blast
  next
    case Fire
    from so Fire have aw: "aw = None" by (cases aw) simp_all
    with so Fire have so': "sysOrder t1 used infl None ?rest" by simp
    from Fire have na: "\<not> about c e" by simp
    have "preInv c used infl None ?w"
      using Cons.prems(2) aw pre_other_step [OF Cons.prems(2) na, of t1]
      by (auto simp: preInv_def split: if_splits)
    with so' show ?thesis by blast
  qed
  then obtain used' infl' aw' where "sysOrder t1 used' infl' aw' ?rest" "preInv c used' infl' aw' ?w"
    by blast
  from Cons.IH [OF this] x show ?case by simp
qed

lemma settle_ok:
  assumes "observe c w = [Processing]" and "timersFor c w = []"
  shows "okInv T c (qstep T (Settled c ResponseOk) w)"
    and "observe c (qstep T (Settled c ResponseOk) w) = [Completed]"
proof -
  have su: "settleUpdate ResponseOk = statusUpdate Completed None" by (simp add: settleUpdate_def)
  show ob: "observe c (qstep T (Settled c ResponseOk) w) = [Completed]"
    using assms(1) by (simp add: su observe_update)
  have "timersFor c (qstep T (Settled c ResponseOk) w) = [T + 5000]"
    using assms by (simp add: su timersFor_effect observe_update)
  with ob show "okInv T c (qstep T (Settled c ResponseOk) w)" by (simp add: okInv_def)
qed

lemma settle_fail:
  assumes "observe c w = [Processing]" and "timersFor c w = []" and "res \<noteq> ResponseOk"
  shows "failInv c (qstep T (Settled c res) w)"
    and "observe c (qstep T (Settled c res) w) = [Failed]"
proof -
  obtain err where su: "settleUpdate res = statusUpdate (outcomeStatus res) err"
    using settleUpdate_statusUpdate by blast
  from assms(3) have f: "outcomeStatus res = Failed" by (cases res) (simp_all add: outcomeStatus_def)
  show ob: "observe c (qstep T (Settled c res) w) = [Failed]"
    using assms(1) by (simp add: su f observe_update)
  have "timersFor c (qstep T (Settled c res) w) = []"
    using assms by (simp add: su f timersFor_effect observe_update)
  with ob show "failInv c (qstep T (Settled c res) w)" by (simp add: failInv_def)
qed

lemma jobPresent_observe: "jobPresent c st w = (st \<in> set (observe c w))"
  by (fastforce simp: jobPresent_def observe_def list_ex_iff image_iff)

lemma jobAbsent_observe: "jobAbsent c w = (observe c w = [])"
  by (auto simp: jobAbsent_def observe_def queueIds_def filter_empty_conv)

text \<open>
  C6: take any trace of the system in which the request of conversation \<open>c\<close> settles at
  clock value \<open>T\<close>, run by a scheduler that lets no timeout wait longer than \<open>slack\<close>
  after it is due.  If the request succeeded (the job is Completed at \<open>T\<close>): as long as
  nobody dismisses the job and the clock has not reached \<open>T + 5000\<close>, the job is still in
  the queue, Completed; once something happens later than \<open>T + 5000 + slack\<close>, the job is
  gone.  If the request failed: as long as nobody dismisses the job it stays in the
  queue, Failed, whatever timeouts fire and however much time passes.  In both cases a
  dismissal removes it.
\<close>

theorem completed_evicted_failed_kept:
  assumes "systemTrace (pre @ (T, Settled c res) # post)"
    and "prompt slack (pre @ (T, Settled c res) # post) (initialWorld today)"
    and "0 \<le> slack"
  shows "(res = ResponseOk \<and> noDismiss c post \<and> lastTime T post < T + 5000 \<longrightarrow>
            jobPresent c Completed (qrun (pre @ (T, Settled c res) # post) (initialWorld today)))
       \<and> (res = ResponseOk \<and> T + 5000 + slack < lastTime T post \<longrightarrow>
            jobAbsent c (qrun (pre @ (T, Settled c res) # post) (initialWorld today)))
       \<and> (res \<noteq> ResponseOk \<and> noDismiss c post \<longrightarrow>
            jobPresent c Failed (qrun (pre @ (T, Settled c res) # post) (initialWorld today)))
       \<and> (post \<noteq> [] \<and> snd (last post) = Dismiss c \<longrightarrow>
            jobAbsent c (qrun (pre @ (T, Settled c res) # post) (initialWorld today)))"
proof -
  let ?w0 = "initialWorld today"
  let ?w1 = "qrun pre ?w0"
  let ?w2 = "qstep T (Settled c res) ?w1"
  have fin: "qrun (pre @ (T, Settled c res) # post) ?w0 = qrun post ?w2"
    by (simp add: qrun_append)
  have p0: "preInv c {} {} None ?w0"
    by (simp add: preInv_def timersFor_def observe_def initialWorld_def initialSessionState_def)
  from assms(1) have so: "sysOrder 0 {} {} None (pre @ (T, Settled c res) # post)"
    by (simp add: systemTrace_def)
  from pre_run [OF so p0]
  have ob: "observe c ?w1 = [Processing]" and ti: "timersFor c ?w1 = []"
    and ch: "chrono T post" and ot: "others c post" by simp_all
  from prompt_append [OF assms(2)] have pr: "prompt slack post ?w2" by simp
  have 1: "jobPresent c Completed (qrun post ?w2)"
    if "res = ResponseOk" "noDismiss c post" "lastTime T post < T + 5000"
  proof -
    from that(1) settle_ok [OF ob ti, of T]
    have ok: "okInv T c ?w2" and o2: "observe c ?w2 = [Completed]" by simp_all
    from ok_present_run [OF ok ch _ ot that(2,3)] o2 show ?thesis
      by (simp add: jobPresent_observe)
  qed
  have 2: "jobAbsent c (qrun post ?w2)" if "res = ResponseOk" "T + 5000 + slack < lastTime T post"
  proof -
    from that(1) settle_ok [OF ob ti, of T] have ok: "okInv T c ?w2" by simp
    from that(2) assms(3) have ne: "post \<noteq> []" by (auto simp: lastTime_def)
    from ok_absent_run [OF ok ch _ ot pr ne that(2)] show ?thesis
      by (simp add: jobAbsent_observe)
  qed
  have 3: "jobPresent c Failed (qrun post ?w2)" if "res \<noteq> ResponseOk" "noDismiss c post"
  proof -
    from settle_fail [OF ob ti that(1), of T]
    have fl: "failInv c ?w2" and o2: "observe c ?w2 = [Failed]" by simp_all
    from fail_present_run [OF fl ot that(2)] o2 show ?thesis
      by (simp add: jobPresent_observe)
  qed
  have 4: "jobAbsent c (qrun post ?w2)" if "post \<noteq> []" "snd (last post) = Dismiss c"
  proof -
    from that obtain t where sp: "post = butlast post @ [(t, Dismiss c)]"
      by (metis append_butlast_last_id prod.collapse)
    let ?w3 = "qrun (butlast post) ?w2"
    from ot sp have ot': "others c (butlast post)" by (metis others_append)
    from ch sp have ch': "chrono T (butlast post)" by (metis chrono_prefix)
    have "list_all (\<lambda>x. x = Completed \<or> x = Failed) (observe c ?w3)"
    proof (cases "res = ResponseOk")
      case True
      with settle_ok [OF ob ti, of T] have "okInv T c ?w2" by simp
      from ok_run [OF this ch' _ ot'] show ?thesis by (auto simp: okInv_def list_all_iff)
    next
      case False
      from fail_run [OF settle_fail(1) [OF ob ti False] ot', of T]
      show ?thesis by (auto simp: failInv_def list_all_iff)
    qed
    from dismiss_removes [OF this, of t] have "observe c (qstep t (Dismiss c) ?w3) = []" .
    moreover have "qrun post ?w2 = qstep t (Dismiss c) ?w3"
      by (subst sp) (simp add: qrun_append)
    ultimately show ?thesis by (simp add: jobAbsent_observe)
  qed
  from 1 2 3 4 show ?thesis unfolding fin by blast
qed

theorem completed_evicted_failed_kept_witness:
  "systemTrace (savedJob7 @ (4000, Settled 7 ResponseOk) # [(5000, Fire)])
   \<and> prompt 100 (savedJob7 @ (4000, Settled 7 ResponseOk) # [(5000, Fire)]) (initialWorld ''2024-01-01'')
   \<and> noDismiss 7 [(5000, Fire)] \<and> lastTime 4000 [(5000, Fire)] < 4000 + 5000
   \<and> jobPresent 7 Completed
        (qrun (savedJob7 @ (4000, Settled 7 ResponseOk) # [(5000, Fire)]) (initialWorld ''2024-01-01''))
   \<and> prompt 100 (savedJob7 @ (4000, Settled 7 ResponseOk) # [(9000, Fire), (9500, Fire)])
        (initialWorld ''2024-01-01'')
   \<and> 4000 + 5000 + 100 < lastTime 4000 [(9000, Fire), (9500, Fire)]
   \<and> jobAbsent 7
        (qrun (savedJob7 @ (4000, Settled 7 ResponseOk) # [(9000, Fire), (9500, Fire)])
           (initialWorld ''2024-01-01''))
   \<and> Rejected None \<noteq> ResponseOk \<and> noDismiss 7 [(20000, Fire)]
   \<and> jobPresent 7 Failed
        (qrun (savedJob7 @ (4000, Settled 7 (Rejected None)) # [(20000, Fire)]) (initialWorld ''2024-01-01''))
   \<and> snd (last [(5000 :: real, Dismiss 7)]) = Dismiss 7
   \<and> jobAbsent 7
        (qrun (savedJob7 @ (4000, Settled 7 (Rejected None)) # [(5000, Dismiss 7)])
           (initialWorld ''2024-01-01''))"
proof -
  let ?w = "initialWorld ''2024-01-01''"
  have t1: "systemTrace (savedJob7 @ (4000, Settled 7 ResponseOk) # [(5000, Fire)])"
    by (simp add: systemTrace_def savedJob7_def job7_def)
  have p1: "prompt 100 (savedJob7 @ (4000, Settled 7 ResponseOk) # [(5000, Fire)]) ?w"
    by code_simp
  have n1: "noDismiss 7 [(5000, Fire)]" by (simp add: noDismiss_def)
  have l1: "lastTime 4000 [(5000, Fire)] < 4000 + 5000" by (simp add: lastTime_def)
  have r1: "jobPresent 7 Completed (qrun (savedJob7 @ (4000, Settled 7 ResponseOk) # [(5000, Fire)]) ?w)"
    using completed_evicted_failed_kept [OF t1 p1] n1 l1 by simp
  have t2: "systemTrace (savedJob7 @ (4000, Settled 7 ResponseOk) # [(9000, Fire), (9500, Fire)])"
    by (simp add: systemTrace_def savedJob7_def job7_def)
  have p2: "prompt 100 (savedJob7 @ (4000, Settled 7 ResponseOk) # [(9000, Fire), (9500, Fire)]) ?w"
    by code_simp
  have l2: "4000 + 5000 + 100 < lastTime 4000 [(9000, Fire), (9500, Fire)]"
    by (simp add: lastTime_def)
  have r2: "jobAbsent 7 (qrun (savedJob7 @ (4000, Settled 7 ResponseOk) # [(9000, Fire), (9500, Fire)]) ?w)"
    using completed_evicted_failed_kept [OF t2 p2] l2 by simp
  have t3: "systemTrace (savedJob7 @ (4000, Settled 7 (Rejected None)) # [(20000, Fire)])"
    by (simp add: systemTrace_def savedJob7_def job7_def)
  have p3: "prompt 100 (savedJob7 @ (4000, Settled 7 (Rejected None)) # [(20000, Fire)]) ?w"
    by code_simp
  have n3: "noDismiss 7 [(20000, Fire)]" by (simp add: noDismiss_def)
  have r3: "jobPresent 7 Failed (qrun (savedJob7 @ (4000, Settled 7 (Rejected None)) # [(20000, Fire)]) ?w)"
    using completed_evicted_failed_kept [OF t3 p3] n3 by simp
  have t4: "systemTrace (savedJob7 @ (4000, Settled 7 (Rejected None)) # [(5000, Dismiss 7)])"
    by (simp add: systemTrace_def savedJob7_def job7_def)
  have p4: "prompt 100 (savedJob7 @ (4000, Settled 7 (Rejected None)) # [(5000, Dismiss 7)]) ?w"
    by code_simp
  have r4: "jobAbsent 7 (qrun (savedJob7 @ (4000, Settled 7 (Rejected None)) # [(5000, Dismiss 7)]) ?w)"
    using completed_evicted_failed_kept [OF t4 p4] by simp
  from t1 p1 n1 l1 r1 p2 l2 r2 n3 r3 r4 show ?thesis by simp
qed

end
